theory Spec2Isabelle
  imports Main
begin

section \<open>The 2048 rule engine of \<open>src/game.js\<close>\<close>

text \<open>
  The module keeps its game state in module-level variables (\<open>grid\<close>, \<open>score\<close>,
  \<open>bestScore\<close>, \<open>hasWon\<close>, \<open>isAnimating\<close>) and mutates them in place. The
  embedding passes the state explicitly. Numbers are JavaScript numbers that only ever
  hold integers here (tile values and scores, far below \<open>2^53\<close>), so they are modelled
  as \<open>int\<close>. \<open>init\<close> calls \<open>startNewGame\<close> before any input can arrive, so every
  call of \<open>move\<close> finds the grid that \<open>startNewGame\<close> built and later calls updated.

  A computation has type \<open>'a comp = (error + 'a) option\<close>:
  \<^item> \<open>None\<close> is a run that never returns (the \<open>do ... while\<close> loop of
    \<open>findFarthestPosition\<close> has no bound of its own);
  \<^item> \<open>Some (Inl OutOfBounds)\<close> is a run that indexed an array outside its range;
  \<^item> \<open>Some (Inr v)\<close> is a run that returned \<open>v\<close>.
\<close>

subsection \<open>Constants and data\<close>

definition GRID_SIZE :: nat where
  "GRID_SIZE = 4"

type_synonym grid = "int list list"

text \<open>
  The objects \<open>{ x, y }\<close>: a cell position, and a direction vector. The fields are
  named \<open>cx\<close> and \<open>cy\<close> here, which leaves \<open>x\<close> and \<open>y\<close> free for variables.
\<close>

record cell =
  cx :: int
  cy :: int

type_synonym vector = cell

text \<open>
  The object \<open>{ farthest, next }\<close> returned by \<open>findFarthestPosition\<close>; the field
  \<open>next\<close> is \<open>nxt\<close> here.
\<close>

record positions =
  farthest :: cell
  nxt :: cell

text \<open>The object \<open>{ x: [...], y: [...] }\<close> returned by \<open>buildTraversals\<close>.\<close>

record traversals =
  tx :: "int list"
  ty :: "int list"

text \<open>The object \<open>{ row, col, value }\<close> pushed on \<open>mergedTiles\<close>.\<close>

record merge_event =
  mrow :: int
  mcol :: int
  mvalue :: int

datatype direction = Up | Down | Left | Right

datatype error = OutOfBounds

type_synonym 'a comp = "(error + 'a) option"

definition ok :: "'a \<Rightarrow> 'a comp" where
  "ok a = Some (Inr a)"

definition bind :: "'a comp \<Rightarrow> ('a \<Rightarrow> 'b comp) \<Rightarrow> 'b comp" where
  "bind m f = (case m of None \<Rightarrow> None | Some (Inl e) \<Rightarrow> Some (Inl e) | Some (Inr a) \<Rightarrow> f a)"

subsection \<open>Array access\<close>

text \<open>
  \<open>a[i][j]\<close> on an array of arrays. JavaScript raises a TypeError when \<open>i\<close> is out
  of range (\<open>a[i]\<close> is \<open>undefined\<close>) and yields \<open>undefined\<close> when only \<open>j\<close> is; a
  write with \<open>j\<close> out of range would grow the row. The model reports every one of these as
  \<open>OutOfBounds\<close>, so a run that returns \<open>Inr\<close> made in-range accesses only, and on such
  a run the model and the JavaScript agree.
\<close>

definition in_range :: "'a list list \<Rightarrow> int \<Rightarrow> int \<Rightarrow> bool" where
  "in_range a i j =
     (0 \<le> i \<and> i < int (length a) \<and> 0 \<le> j \<and> j < int (length (a ! nat i)))"

definition get2 :: "'a list list \<Rightarrow> int \<Rightarrow> int \<Rightarrow> 'a comp" where
  "get2 a i j = (if in_range a i j then ok (a ! nat i ! nat j) else Some (Inl OutOfBounds))"

definition set2 :: "'a list list \<Rightarrow> int \<Rightarrow> int \<Rightarrow> 'a \<Rightarrow> 'a list list comp" where
  "set2 a i j v =
     (if in_range a i j then ok (a[nat i := (a ! nat i)[nat j := v]])
      else Some (Inl OutOfBounds))"

subsection \<open>\<open>move\<close>: vectors, traversal order, farthest position\<close>

text \<open>The table \<open>vectors\<close> of \<open>move\<close>.\<close>

fun vectors :: "direction \<Rightarrow> vector" where
  "vectors Up = \<lparr>cx = 0, cy = -1\<rparr>"
| "vectors Down = \<lparr>cx = 0, cy = 1\<rparr>"
| "vectors Left = \<lparr>cx = -1, cy = 0\<rparr>"
| "vectors Right = \<lparr>cx = 1, cy = 0\<rparr>"

text \<open>
  \<open>buildTraversals(vector)\<close>: both index lists are \<open>0, 1, 2, 3\<close>; the x list is
  reversed when \<open>vector.x === 1\<close>, the y list when \<open>vector.y === 1\<close>.
\<close>

definition buildTraversals :: "vector \<Rightarrow> traversals" where
  "buildTraversals vector =
     (let t = \<lparr>tx = map int [0..<GRID_SIZE], ty = map int [0..<GRID_SIZE]\<rparr>;
          t = (if cx vector = 1 then t\<lparr>tx := rev (tx t)\<rparr> else t);
          t = (if cy vector = 1 then t\<lparr>ty := rev (ty t)\<rparr> else t)
      in t)"

text \<open>\<open>withinBounds(cell)\<close>.\<close>

definition withinBounds :: "cell \<Rightarrow> bool" where
  "withinBounds c =
     (cx c \<ge> 0 \<and> cx c < int GRID_SIZE \<and> cy c \<ge> 0 \<and> cy c < int GRID_SIZE)"

text \<open>
  \<open>findFarthestPosition(cell, vector)\<close>. One call of the model is one pass through the
  body of the \<open>do ... while\<close> loop followed by its test; the test reads the grid only
  after the four comparisons with \<open>GRID_SIZE\<close> (the \<open>&&\<close> chain short-circuits), and
  that read is the range-checked read of \<open>get2\<close>, written out. With the zero vector on
  an empty cell the loop never ends, hence the \<open>option\<close>.
\<close>

partial_function (option) findFarthestPosition :: "grid \<Rightarrow> cell \<Rightarrow> vector \<Rightarrow> positions comp" where
  "findFarthestPosition g c vector =
     (let previous = c;
          c' = \<lparr>cx = cx previous + cx vector, cy = cy previous + cy vector\<rparr>
      in if cx c' \<ge> 0 \<and> cx c' < int GRID_SIZE \<and> cy c' \<ge> 0 \<and> cy c' < int GRID_SIZE
         then (if in_range g (cy c') (cx c')
               then (if g ! nat (cy c') ! nat (cx c') = 0
                     then findFarthestPosition g c' vector
                     else Some (Inr \<lparr>farthest = previous, nxt = c'\<rparr>))
               else Some (Inl OutOfBounds))
         else Some (Inr \<lparr>farthest = previous, nxt = c'\<rparr>))"

declare findFarthestPosition.simps [code]

subsection \<open>\<open>move\<close>: the resolution loop\<close>

text \<open>
  What the two nested \<open>forEach\<close> loops of \<open>move\<close> read and write: the globals
  \<open>grid\<close> and \<open>score\<close>, and the locals \<open>moved\<close>, \<open>mergedTiles\<close> and \<open>merged\<close>.
  (\<open>previousGrid\<close> is computed and never read.) The rows of \<open>grid\<close> and of \<open>merged\<close>
  are created one by one (\<open>.map(() => Array(GRID_SIZE).fill(...))\<close>), so no two rows are
  the same array and a list of lists models them.
\<close>

record resolution =
  rgrid :: grid
  rscore :: int
  moved :: bool
  mergedTiles :: "merge_event list"
  merged :: "bool list list"

text \<open>\<open>xs.forEach(f)\<close> with a body that updates the state.\<close>

fun forEach :: "'a list \<Rightarrow> ('a \<Rightarrow> 's \<Rightarrow> 's comp) \<Rightarrow> 's \<Rightarrow> 's comp" where
  "forEach [] f s = ok s"
| "forEach (a # as) f s = bind (f a s) (forEach as f)"

text \<open>
  The test \<open>next && withinBounds(next) && grid[next.y][next.x] === tile &&
  !merged[next.y][next.x]\<close>; \<open>next\<close> is an object, hence truthy, and each array is read
  only when everything to its left held.
\<close>

definition can_merge :: "resolution \<Rightarrow> cell \<Rightarrow> int \<Rightarrow> bool comp" where
  "can_merge s n tile =
     (if withinBounds n
      then bind (get2 (rgrid s) (cy n) (cx n)) (\<lambda>v.
             if v = tile
             then bind (get2 (merged s) (cy n) (cx n)) (\<lambda>m. ok (\<not> m))
             else ok False)
      else ok False)"

text \<open>The body of the inner \<open>forEach\<close>, for the cell \<open>{ x, y }\<close>.\<close>

definition move_cell :: "vector \<Rightarrow> int \<Rightarrow> int \<Rightarrow> resolution \<Rightarrow> resolution comp" where
  "move_cell vector y x s =
     (let c = \<lparr>cx = x, cy = y\<rparr> in
      bind (get2 (rgrid s) (cy c) (cx c)) (\<lambda>tile.
        if tile \<noteq> 0
        then bind (findFarthestPosition (rgrid s) c vector) (\<lambda>ps.
               let n = nxt ps in
               bind (can_merge s n tile) (\<lambda>b.
                 if b
                 then (let mergedValue = tile * 2 in
                       bind (set2 (rgrid s) (cy n) (cx n) mergedValue) (\<lambda>g1.
                       bind (set2 g1 (cy c) (cx c) 0) (\<lambda>g2.
                       bind (set2 (merged s) (cy n) (cx n) True) (\<lambda>m1.
                         ok (s\<lparr>rgrid := g2, merged := m1,
                                rscore := rscore s + mergedValue,
                                mergedTiles := mergedTiles s @
                                  [\<lparr>mrow = cy n, mcol = cx n, mvalue = mergedValue\<rparr>],
                                moved := True\<rparr>)))))
                 else (if cx (farthest ps) \<noteq> cx c \<or> cy (farthest ps) \<noteq> cy c
                       then bind (set2 (rgrid s) (cy (farthest ps)) (cx (farthest ps)) tile) (\<lambda>g1.
                            bind (set2 g1 (cy c) (cx c) 0) (\<lambda>g2.
                              ok (s\<lparr>rgrid := g2, moved := True\<rparr>)))
                       else ok s)))
        else ok s))"

text \<open>
  Lines 143 to 195 of \<open>move\<close>: the locals are initialised, then
  \<open>traversals.y.forEach(y => traversals.x.forEach(x => ...))\<close> runs.
\<close>

definition resolve :: "direction \<Rightarrow> grid \<Rightarrow> int \<Rightarrow> resolution comp" where
  "resolve d g sc =
     (let vector = vectors d;
          t = buildTraversals vector;
          s0 = \<lparr>rgrid = g, rscore = sc, moved = False, mergedTiles = [],
                merged = replicate GRID_SIZE (replicate GRID_SIZE False)\<rparr>
      in forEach (ty t) (\<lambda>y. forEach (tx t) (\<lambda>x. move_cell vector y x)) s0)"

subsection \<open>Spawning, terminal tests\<close>

text \<open>
  The two calls of \<open>Math.random()\<close> in \<open>spawnTile\<close>, as the caller supplies them:
  \<open>cell_draw\<close> stands for the first number, of which only
  \<open>Math.floor(Math.random() * emptyCells.length)\<close> is used, an index below the length
  (modelled as \<open>cell_draw mod length\<close>); \<open>value_draw\<close> is the outcome of
  \<open>Math.random() < 0.9\<close>.
\<close>

record random =
  cell_draw :: nat
  value_draw :: bool

text \<open>The index list \<open>0, ..., GRID_SIZE - 1\<close> of a \<open>for\<close> loop over rows or columns.\<close>

definition indices :: "int list" where
  "indices = map int [0..<GRID_SIZE]"

text \<open>The list \<open>emptyCells\<close> of \<open>spawnTile\<close>: the objects \<open>{ row, col }\<close> as pairs.\<close>

definition emptyCells :: "grid \<Rightarrow> (int \<times> int) list comp" where
  "emptyCells g =
     forEach indices (\<lambda>row.
       forEach indices (\<lambda>col acc.
         bind (get2 g row col) (\<lambda>v. ok (if v = 0 then acc @ [(row, col)] else acc)))) []"

definition spawnTile :: "random \<Rightarrow> grid \<Rightarrow> grid comp" where
  "spawnTile r g =
     bind (emptyCells g) (\<lambda>cells.
       if length cells > 0
       then (case cells ! (cell_draw r mod length cells) of
               (row, col) \<Rightarrow> set2 g row col (if value_draw r then 2 else 4))
       else ok g)"

text \<open>A \<open>for\<close> loop whose body is \<open>if (test) return true\<close>, followed by \<open>false\<close>.\<close>

fun any_of :: "'a list \<Rightarrow> ('a \<Rightarrow> bool comp) \<Rightarrow> bool comp" where
  "any_of [] p = ok False"
| "any_of (a # as) p = bind (p a) (\<lambda>b. if b then ok True else any_of as p)"

definition hasReached2048 :: "grid \<Rightarrow> bool comp" where
  "hasReached2048 g =
     any_of indices (\<lambda>row. any_of indices (\<lambda>col.
       bind (get2 g row col) (\<lambda>v. ok (v \<ge> 2048))))"

text \<open>
  The test of the second loop of \<open>movesAvailable\<close>; \<open>&&\<close> and \<open>||\<close> short-circuit, so
  the neighbour below is read only when \<open>row < GRID_SIZE - 1\<close>, and the neighbour to the
  right only when the first disjunct failed and \<open>col < GRID_SIZE - 1\<close>.
\<close>

definition neighbour_equal :: "grid \<Rightarrow> int \<Rightarrow> int \<Rightarrow> bool comp" where
  "neighbour_equal g row col =
     bind (get2 g row col) (\<lambda>v.
     bind (if row < int GRID_SIZE - 1
           then bind (get2 g (row + 1) col) (\<lambda>w. ok (w = v)) else ok False) (\<lambda>below.
       if below then ok True
       else if col < int GRID_SIZE - 1
            then bind (get2 g row (col + 1)) (\<lambda>w. ok (w = v)) else ok False))"

definition movesAvailable :: "grid \<Rightarrow> bool comp" where
  "movesAvailable g =
     bind (any_of indices (\<lambda>row. any_of indices (\<lambda>col.
             bind (get2 g row col) (\<lambda>v. ok (v = 0))))) (\<lambda>empty.
       if empty then ok True
       else any_of indices (\<lambda>row. any_of indices (\<lambda>col. neighbour_equal g row col)))"

subsection \<open>The session\<close>

text \<open>
  The module's variables, and two fields for its effects on the page: \<open>shown\<close> lists
  the calls \<open>showGameMessage(message, isWin)\<close> made so far, oldest first, and \<open>pending\<close>
  counts the callbacks that \<open>move\<close> has handed to \<open>setTimeout\<close> (line 214) and that have
  not run yet. Rendering, the score display and \<open>localStorage\<close> are left out.
\<close>

record state =
  grid :: grid
  score :: int
  bestScore :: int
  hasWon :: bool
  isAnimating :: bool
  shown :: "(string \<times> bool) list"
  pending :: nat

definition updateScore :: "state \<Rightarrow> state" where
  "updateScore s = (if score s > bestScore s then s\<lparr>bestScore := score s\<rparr> else s)"

definition showGameMessage :: "string \<Rightarrow> bool \<Rightarrow> state \<Rightarrow> state" where
  "showGameMessage message isWin s = s\<lparr>shown := shown s @ [(message, isWin)]\<rparr>"

text \<open>
  \<open>move(direction)\<close> up to its \<open>return moved\<close>: the guard, the resolution loop, and
  when something moved the flag, the score display and the scheduling of the callback.
\<close>

definition move :: "direction \<Rightarrow> state \<Rightarrow> (bool \<times> state) comp" where
  "move d s =
     (if isAnimating s then ok (False, s)
      else bind (resolve d (grid s) (score s)) (\<lambda>r.
             let s1 = s\<lparr>grid := rgrid r, score := rscore r\<rparr> in
             if moved r
             then ok (True, (updateScore (s1\<lparr>isAnimating := True\<rparr>))\<lparr>pending := pending s + 1\<rparr>)
             else ok (False, s1)))"

text \<open>
  The callback of lines 214 to 225. \<open>!hasWon && hasReached2048()\<close> calls
  \<open>hasReached2048\<close> only when \<open>hasWon\<close> is false.
\<close>

definition move_callback :: "random \<Rightarrow> state \<Rightarrow> state comp" where
  "move_callback r s =
     bind (spawnTile r (grid s)) (\<lambda>g.
       let s1 = s\<lparr>grid := g, isAnimating := False\<rparr> in
       bind (if hasWon s1 then ok False else hasReached2048 (grid s1)) (\<lambda>win.
         if win then ok (showGameMessage ''You Win!'' True (s1\<lparr>hasWon := True\<rparr>))
         else bind (movesAvailable (grid s1)) (\<lambda>avail.
                if \<not> avail then ok (showGameMessage ''Game Over!'' False s1)
                else ok s1)))"

text \<open>\<open>startNewGame()\<close>, with the random numbers of its two \<open>spawnTile\<close> calls.\<close>

definition startNewGame :: "random \<Rightarrow> random \<Rightarrow> state \<Rightarrow> state comp" where
  "startNewGame r1 r2 s =
     (let s1 = updateScore (s\<lparr>grid := replicate GRID_SIZE (replicate GRID_SIZE 0),
                              score := 0, hasWon := False, isAnimating := False\<rparr>)
      in bind (spawnTile r1 (grid s1)) (\<lambda>g1.
         bind (spawnTile r2 g1) (\<lambda>g2. ok (s1\<lparr>grid := g2\<rparr>))))"

text \<open>
  What can happen to a session: a direction command, a scheduled callback that fires, or
  a click on one of the new-game buttons. A callback fires only if one is pending.
\<close>

datatype event = Move direction | Timeout random | NewGame random random

fun step :: "event \<Rightarrow> state \<Rightarrow> state comp" where
  "step (Move d) s = bind (move d s) (\<lambda>(b, s'). ok s')"
| "step (Timeout r) s =
     (if pending s = 0 then ok s else move_callback r (s\<lparr>pending := pending s - 1\<rparr>))"
| "step (NewGame r1 r2) s = startNewGame r1 r2 s"

definition run :: "event list \<Rightarrow> state \<Rightarrow> state comp" where
  "run es s = forEach es step s"

fun is_NewGame :: "event \<Rightarrow> bool" where
  "is_NewGame (NewGame r1 r2) = True"
| "is_NewGame e = False"

section \<open>Vocabulary of the properties\<close>

text \<open>
  A well-formed grid is \<open>GRID_SIZE\<close> rows of \<open>GRID_SIZE\<close> cells, which is what
  \<open>startNewGame\<close> builds. \<open>at\<close> and \<open>upd\<close> read and write a cell of such a grid,
  \<open>advance c v k\<close> is the cell \<open>k\<close> steps from \<open>c\<close> along \<open>v\<close>, and
  \<open>merge_into\<close> and \<open>slide_to\<close> are the two ways the loop body of \<open>move\<close> changes
  its state.
\<close>

definition wf_grid :: "'a list list \<Rightarrow> bool" where
  "wf_grid a = (length a = GRID_SIZE \<and> (\<forall>r \<in> set a. length r = GRID_SIZE))"

definition at :: "'a list list \<Rightarrow> cell \<Rightarrow> 'a" where
  "at a c = a ! nat (cy c) ! nat (cx c)"

definition upd :: "'a list list \<Rightarrow> cell \<Rightarrow> 'a \<Rightarrow> 'a list list" where
  "upd a c v = a[nat (cy c) := (a ! nat (cy c))[nat (cx c) := v]]"

definition advance :: "cell \<Rightarrow> vector \<Rightarrow> nat \<Rightarrow> cell" where
  "advance c v k = \<lparr>cx = cx c + int k * cx v, cy = cy c + int k * cy v\<rparr>"

fun room :: "direction \<Rightarrow> cell \<Rightarrow> nat" where
  "room Up c = nat (cy c)"
| "room Down c = nat (int GRID_SIZE - 1 - cy c)"
| "room Left c = nat (cx c)"
| "room Right c = nat (int GRID_SIZE - 1 - cx c)"

definition merge_into :: "resolution \<Rightarrow> cell \<Rightarrow> cell \<Rightarrow> resolution" where
  "merge_into s c n =
     s\<lparr>rgrid := upd (upd (rgrid s) n (at (rgrid s) c * 2)) c 0,
       merged := upd (merged s) n True,
       rscore := rscore s + at (rgrid s) c * 2,
       mergedTiles := mergedTiles s @
         [\<lparr>mrow = cy n, mcol = cx n, mvalue = at (rgrid s) c * 2\<rparr>],
       moved := True\<rparr>"

definition slide_to :: "resolution \<Rightarrow> cell \<Rightarrow> cell \<Rightarrow> resolution" where
  "slide_to s c f = s\<lparr>rgrid := upd (upd (rgrid s) f (at (rgrid s) c)) c 0, moved := True\<rparr>"

definition initial :: "grid \<Rightarrow> int \<Rightarrow> resolution" where
  "initial g sc = \<lparr>rgrid = g, rscore = sc, moved = False, mergedTiles = [],
                   merged = replicate GRID_SIZE (replicate GRID_SIZE False)\<rparr>"

text \<open>A board in mid-game, used to run the theorems on.\<close>

definition sample_grid :: grid where
  "sample_grid = [[2, 2, 4, 0], [2, 0, 4, 0], [4, 0, 0, 0], [4, 0, 8, 0]]"

text \<open>The total of the tile values on a grid, and of the values of a list of merge events.\<close>

definition grid_sum :: "grid \<Rightarrow> int" where
  "grid_sum g = sum_list (map sum_list g)"

definition merge_values :: "merge_event list \<Rightarrow> int" where
  "merge_values es = sum_list (map mvalue es)"

definition pair_grid :: grid where
  "pair_grid = [[2, 2, 0, 0], [0, 0, 0, 0], [0, 0, 0, 0], [0, 0, 0, 0]]"

text \<open>The cell a merge event names as its destination.\<close>

definition merge_cell :: "merge_event \<Rightarrow> cell" where
  "merge_cell e = \<lparr>cx = mcol e, cy = mrow e\<rparr>"

definition triple_grid :: grid where
  "triple_grid = [[2, 2, 2, 0], [2, 2, 2, 0], [2, 2, 2, 0], [2, 2, 2, 0]]"

definition compact_grid :: grid where
  "compact_grid = [[2, 4, 0, 0], [4, 0, 0, 0], [2, 4, 8, 16], [0, 0, 0, 0]]"

definition compact_state :: state where
  "compact_state = \<lparr>grid = compact_grid, score = 12, bestScore = 20, hasWon = False,
                     isAnimating = False, shown = [], pending = 0\<rparr>"

definition right_grid :: grid where
  "right_grid = [[0, 2, 2, 2], [0, 2, 2, 2], [0, 2, 2, 2], [0, 2, 2, 2]]"

text \<open>
  The farthest-position search as the specification words it, to be compared with
  \<open>findFarthestPosition\<close>: from the cell, step along the vector until the next step
  would leave the board or land on a cell that is non-empty and has not been merged into
  during this move; the landing spot is the last cell reached, and next is the cell
  beyond it.
\<close>

function spec_walk :: "grid \<Rightarrow> bool list list \<Rightarrow> cell \<Rightarrow> direction \<Rightarrow> positions" where
  "spec_walk g m c d =
     (let n = advance c (vectors d) 1 in
      if \<not> withinBounds n \<or> (at g n \<noteq> 0 \<and> \<not> at m n)
      then \<lparr>farthest = c, nxt = n\<rparr>
      else spec_walk g m n d)"
  by pat_completeness auto
termination
  apply (relation "measure (\<lambda>(g, m, c, d). room d c)")
   apply simp
  subgoal for g m c d
    by (cases d) (auto simp: withinBounds_def advance_def GRID_SIZE_def)
  done

text \<open>
  The grid and the merged flags of the resolution loop when sliding the row
  \<open>2, 2, 4, 0\<close> to the left has merged the two \<open>2\<close>s and reaches the third cell.
\<close>

definition passed_grid :: grid where
  "passed_grid = [[4, 0, 4, 0], [0, 0, 0, 0], [0, 0, 0, 0], [0, 0, 0, 0]]"

definition passed_flags :: "bool list list" where
  "passed_flags = [[True, False, False, False], [False, False, False, False],
                   [False, False, False, False], [False, False, False, False]]"

text \<open>
  Two states of the resolution loop that differ at most in the score; two runs that end
  alike, with results related by \<open>R\<close>; and what a run of the loop tells about the
  board: the grid, the \<open>moved\<close> flag and the merge events.
\<close>

definition same_board :: "resolution \<Rightarrow> resolution \<Rightarrow> bool" where
  "same_board s1 s2 =
     (rgrid s1 = rgrid s2 \<and> moved s1 = moved s2 \<and> mergedTiles s1 = mergedTiles s2
      \<and> merged s1 = merged s2)"

definition agree :: "('a \<Rightarrow> 'a \<Rightarrow> bool) \<Rightarrow> 'a comp \<Rightarrow> 'a comp \<Rightarrow> bool" where
  "agree R m1 m2 = rel_option (rel_sum (=) R) m1 m2"

definition outcome :: "resolution comp \<Rightarrow> (grid \<times> bool \<times> merge_event list) comp" where
  "outcome m = map_option (map_sum id (\<lambda>r. (rgrid r, moved r, mergedTiles r))) m"

text \<open>
  The cells of the board; an empty cell somewhere; two cells that share an edge (each of the
  four neighbours counts); a pair of neighbouring tiles of equal value. \<open>below\<close> and
  \<open>right_of\<close> are the two neighbours that \<open>movesAvailable\<close> looks at.
\<close>

definition all_cells :: "cell list" where
  "all_cells = concat (map (\<lambda>y. map (\<lambda>x. \<lparr>cx = x, cy = y\<rparr>) indices) indices)"

definition has_empty :: "grid \<Rightarrow> bool" where
  "has_empty g = (\<exists>c \<in> set all_cells. at g c = 0)"

definition adjacent :: "cell \<Rightarrow> cell \<Rightarrow> bool" where
  "adjacent a b = (\<bar>cx a - cx b\<bar> + \<bar>cy a - cy b\<bar> = 1)"

definition has_equal_pair :: "grid \<Rightarrow> bool" where
  "has_equal_pair g =
     (\<exists>a \<in> set all_cells. \<exists>b \<in> set all_cells. adjacent a b \<and> at g a \<noteq> 0 \<and> at g a = at g b)"

definition stuck_grid :: grid where
  "stuck_grid = [[2, 4, 2, 4], [4, 2, 4, 2], [2, 4, 2, 4], [4, 2, 4, 2]]"

definition full_pair_grid :: grid where
  "full_pair_grid = [[2, 4, 2, 4], [4, 2, 4, 2], [2, 4, 8, 4], [4, 2, 8, 2]]"

definition below :: "cell \<Rightarrow> cell" where
  "below c = \<lparr>cx = cx c, cy = cy c + 1\<rparr>"

definition right_of :: "cell \<Rightarrow> cell" where
  "right_of c = \<lparr>cx = cx c + 1, cy = cy c\<rparr>"

text \<open>
  A tile value is a power of two that is at least 2 (\<open>pow2\<close> halves its argument
  down to 2); a cell holds 0 or a tile value; \<open>board_ok\<close> is the invariant of the
  board. \<open>wins\<close> counts the win messages in a list of \<open>showGameMessage\<close> calls.
\<close>

function pow2 :: "int \<Rightarrow> bool" where
  "pow2 v = (if v < 2 then False else if v = 2 then True else even v \<and> pow2 (v div 2))"
  by pat_completeness auto
termination
  by (relation "measure nat") auto

declare pow2.simps [simp del]

definition tile_value :: "int \<Rightarrow> bool" where
  "tile_value v = (v = 0 \<or> pow2 v)"

definition valid_tiles :: "grid \<Rightarrow> bool" where
  "valid_tiles g = (\<forall>row \<in> set g. \<forall>v \<in> set row. tile_value v)"

definition board_ok :: "grid \<Rightarrow> bool" where
  "board_ok g = (wf_grid g \<and> valid_tiles g)"

definition wins :: "(string \<times> bool) list \<Rightarrow> nat" where
  "wins xs = length (filter snd xs)"

definition session_ok :: "state \<Rightarrow> bool" where
  "session_ok s = board_ok (grid s)"

definition no_new_game :: "event list \<Rightarrow> bool" where
  "no_new_game es = (\<not> list_ex is_NewGame es)"

definition winning_state :: state where
  "winning_state = \<lparr>grid = [[1024, 1024, 0, 0], [0, 0, 0, 0], [0, 0, 0, 0], [0, 0, 0, 0]],
                     score = 20000, bestScore = 30000, hasWon = False,
                     isAnimating = False, shown = [], pending = 0\<rparr>"

definition first_two :: random where
  "first_two = \<lparr>cell_draw = 0, value_draw = True\<rparr>"

definition won_signals :: "state \<Rightarrow> nat" where
  "won_signals s = wins (shown s)"

text \<open>
  The board before the first spawn of a new game; the empty cells of a grid in the order
  in which \<open>spawnTile\<close> collects them (row by row); the cell and the value that
  \<open>spawnTile\<close> picks for given random numbers.
\<close>

definition empty_grid :: grid where
  "empty_grid = replicate GRID_SIZE (replicate GRID_SIZE 0)"

definition empty_cells :: "grid \<Rightarrow> cell list" where
  "empty_cells g = filter (\<lambda>c. at g c = 0) all_cells"

definition spawn_cell :: "random \<Rightarrow> grid \<Rightarrow> cell" where
  "spawn_cell r g = empty_cells g ! (cell_draw r mod length (empty_cells g))"

definition spawn_value :: "random \<Rightarrow> int" where
  "spawn_value r = (if value_draw r then 2 else 4)"

definition eighth_four :: random where
  "eighth_four = \<lparr>cell_draw = 7, value_draw = False\<rparr>"

section \<open>The resolution loop, step by step\<close>

lemma bind_ok [simp]: "bind (ok a) f = f a"
  by (simp add: bind_def ok_def)

lemma ok_inject [simp]: "ok a = ok b \<longleftrightarrow> a = b"
  by (simp add: ok_def)

lemma ok_not_err [simp]:
  "ok a \<noteq> Some (Inl e)" "ok a \<noteq> None" "Some (Inl e) \<noteq> ok a" "None \<noteq> ok a"
  by (simp_all add: ok_def)

lemma bind_err [simp]: "bind (Some (Inl e)) f = Some (Inl e)"
  by (simp add: bind_def)

lemma bind_none [simp]: "bind None f = None"
  by (simp add: bind_def)

lemma wf_in_range: "wf_grid a \<Longrightarrow> withinBounds c \<Longrightarrow> in_range a (cy c) (cx c)"
  by (auto simp: wf_grid_def withinBounds_def in_range_def)

lemma get2_wf: "wf_grid a \<Longrightarrow> withinBounds c \<Longrightarrow> get2 a (cy c) (cx c) = ok (at a c)"
  by (simp add: get2_def wf_in_range at_def)

lemma set2_wf: "wf_grid a \<Longrightarrow> withinBounds c \<Longrightarrow> set2 a (cy c) (cx c) v = ok (upd a c v)"
  by (simp add: set2_def wf_in_range upd_def)

lemma wf_grid_nth:
  "wf_grid a \<longleftrightarrow> length a = GRID_SIZE \<and> (\<forall>i<GRID_SIZE. length (a ! i) = GRID_SIZE)"
  by (auto simp: wf_grid_def all_set_conv_all_nth)

lemma wf_upd [simp]: "wf_grid (upd a c v) = wf_grid a"
proof -
  have "length (a[i := (a ! i)[j := v]] ! k) = length (a ! k)" if "k < length a" for i j k
    using that by (cases "k = i") simp_all
  then show ?thesis
    by (auto simp: wf_grid_nth upd_def)
qed

lemma advance_0 [simp]: "advance c v 0 = c"
  by (simp add: advance_def)

lemma advance_advance: "advance (advance c v (Suc 0)) v k = advance c v (Suc k)"
  by (simp add: advance_def algebra_simps)

lemma room_less: "withinBounds (advance c (vectors d) (Suc 0)) \<Longrightarrow> room d (advance c (vectors d) (Suc 0)) < room d c"
  by (cases d) (auto simp: withinBounds_def advance_def GRID_SIZE_def)

lemma ffp_step:
  "findFarthestPosition g c v =
     (if withinBounds (advance c v (Suc 0))
      then (if in_range g (cy (advance c v (Suc 0))) (cx (advance c v (Suc 0)))
            then (if at g (advance c v (Suc 0)) = 0 then findFarthestPosition g (advance c v (Suc 0)) v
                  else ok \<lparr>farthest = c, nxt = advance c v (Suc 0)\<rparr>)
            else Some (Inl OutOfBounds))
      else ok \<lparr>farthest = c, nxt = advance c v (Suc 0)\<rparr>)"
  by (subst findFarthestPosition.simps) (simp add: Let_def withinBounds_def advance_def at_def ok_def)

lemma ffp_char:
  assumes wf: "wf_grid g"
  shows "\<exists>k. findFarthestPosition g c (vectors d) =
            ok \<lparr>farthest = advance c (vectors d) k, nxt = advance c (vectors d) (Suc k)\<rparr>
          \<and> (\<forall>i. 1 \<le> i \<and> i \<le> k \<longrightarrow>
                withinBounds (advance c (vectors d) i) \<and> at g (advance c (vectors d) i) = 0)
          \<and> \<not> (withinBounds (advance c (vectors d) (Suc k))
                \<and> at g (advance c (vectors d) (Suc k)) = 0)"
proof (induction "room d c" arbitrary: c rule: less_induct)
  case less
  let ?v = "vectors d"
  let ?c = "advance c ?v (Suc 0)"
  show ?case
  proof (cases "withinBounds ?c \<and> at g ?c = 0")
    case True
    then have lt: "room d ?c < room d c"
      by (simp add: room_less)
    from less [OF lt] obtain k where
      k: "findFarthestPosition g ?c ?v =
            ok \<lparr>farthest = advance ?c ?v k, nxt = advance ?c ?v (Suc k)\<rparr>"
         "\<forall>i. 1 \<le> i \<and> i \<le> k \<longrightarrow> withinBounds (advance ?c ?v i) \<and> at g (advance ?c ?v i) = 0"
         "\<not> (withinBounds (advance ?c ?v (Suc k)) \<and> at g (advance ?c ?v (Suc k)) = 0)"
      by blast
    have run: "findFarthestPosition g c ?v = findFarthestPosition g ?c ?v"
      using True wf by (subst ffp_step) (simp add: wf_in_range)
    have mid: "withinBounds (advance c ?v i) \<and> at g (advance c ?v i) = 0"
      if "1 \<le> i" "i \<le> Suc k" for i
    proof (cases "i = 1")
      case True
      with \<open>withinBounds ?c \<and> at g ?c = 0\<close> show ?thesis by simp
    next
      case False
      with that obtain j where j: "i = Suc j" "1 \<le> j" "j \<le> k"
        by (cases i) auto
      with k(2) show ?thesis
        by (simp add: advance_advance)
    qed
    show ?thesis
      apply (rule exI [of _ "Suc k"])
      using run k(1) k(3) mid by (simp add: advance_advance)
  next
    case False
    have "findFarthestPosition g c ?v = ok \<lparr>farthest = c, nxt = ?c\<rparr>"
      using False wf by (subst ffp_step) (auto simp: wf_in_range)
    with False show ?thesis
      by (intro exI [of _ 0]) simp
  qed
qed

lemma can_merge_wf:
  "wf_grid (rgrid s) \<Longrightarrow> wf_grid (merged s) \<Longrightarrow>
   can_merge s n t = ok (withinBounds n \<and> at (rgrid s) n = t \<and> \<not> at (merged s) n)"
  by (simp add: can_merge_def get2_wf)

lemma advance_Suc_neq: "advance c (vectors d) (Suc k) \<noteq> c"
proof -
  have "cx (advance c (vectors d) (Suc k)) \<noteq> cx c \<or> cy (advance c (vectors d) (Suc k)) \<noteq> cy c"
    by (cases d) (simp_all add: advance_def)
  then show ?thesis by auto
qed

lemma advance_neq_pos: "advance c (vectors d) k \<noteq> c \<Longrightarrow> 1 \<le> k"
  by (cases k) simp_all

lemma cell_neq_iff: "(cx a \<noteq> cx b \<or> cy a \<noteq> cy b) \<longleftrightarrow> a \<noteq> (b::cell)"
  by (auto simp: cell.equality)

lemma move_cell_steps:
  assumes g: "wf_grid (rgrid s)" and m: "wf_grid (merged s)"
    and c: "withinBounds \<lparr>cx = x, cy = y\<rparr>"
  shows "move_cell (vectors d) y x s = ok s
     \<or> (\<exists>n. withinBounds n \<and> n \<noteq> \<lparr>cx = x, cy = y\<rparr> \<and> at (rgrid s) \<lparr>cx = x, cy = y\<rparr> \<noteq> 0
            \<and> at (rgrid s) n = at (rgrid s) \<lparr>cx = x, cy = y\<rparr> \<and> \<not> at (merged s) n
            \<and> (\<exists>k. n = advance \<lparr>cx = x, cy = y\<rparr> (vectors d) k)
            \<and> move_cell (vectors d) y x s = ok (merge_into s \<lparr>cx = x, cy = y\<rparr> n))
     \<or> (\<exists>f. withinBounds f \<and> f \<noteq> \<lparr>cx = x, cy = y\<rparr> \<and> at (rgrid s) \<lparr>cx = x, cy = y\<rparr> \<noteq> 0
            \<and> at (rgrid s) f = 0
            \<and> (\<exists>k. f = advance \<lparr>cx = x, cy = y\<rparr> (vectors d) k)
            \<and> move_cell (vectors d) y x s = ok (slide_to s \<lparr>cx = x, cy = y\<rparr> f))"
proof -
  let ?c = "\<lparr>cx = x, cy = y\<rparr>"
  let ?t = "at (rgrid s) ?c"
  have rd: "get2 (rgrid s) y x = ok ?t"
    using get2_wf [OF g c] by simp
  show ?thesis
  proof (cases "?t = 0")
    case True
    then show ?thesis by (simp add: move_cell_def rd)
  next
    case False
    from ffp_char [OF g, of ?c d] obtain k where
      k: "findFarthestPosition (rgrid s) ?c (vectors d) =
            ok \<lparr>farthest = advance ?c (vectors d) k, nxt = advance ?c (vectors d) (Suc k)\<rparr>"
         "\<forall>i. 1 \<le> i \<and> i \<le> k \<longrightarrow> withinBounds (advance ?c (vectors d) i)
               \<and> at (rgrid s) (advance ?c (vectors d) i) = 0"
      by blast
    let ?n = "advance ?c (vectors d) (Suc k)"
    let ?f = "advance ?c (vectors d) k"
    define b where "b = (withinBounds ?n \<and> at (rgrid s) ?n = ?t \<and> \<not> at (merged s) ?n)"
    have cm: "can_merge s ?n ?t = ok b"
      by (simp add: can_merge_wf [OF g m] b_def)
    show ?thesis
    proof (cases b)
      case True
      then have wn: "withinBounds ?n" by (simp add: b_def)
      have "move_cell (vectors d) y x s = ok (merge_into s ?c ?n)"
        using False True
        by (simp add: move_cell_def rd k(1) cm Let_def
            set2_wf [OF g wn] set2_wf [OF m wn] set2_wf [OF _ c, simplified] g merge_into_def)
      with True False advance_Suc_neq [of ?c d k] show ?thesis
        unfolding b_def by blast
    next
      case nomerge: False
      show ?thesis
      proof (cases "?f = ?c")
        case True
        then have "cx ?f = x" "cy ?f = y"
          by (auto dest: arg_cong [where f = cx] arg_cong [where f = cy])
        then have "move_cell (vectors d) y x s = ok s"
          using False nomerge
          by (simp add: move_cell_def rd k(1) cm Let_def)
        then show ?thesis by simp
      next
        case far: False
        then have "1 \<le> k" by (rule advance_neq_pos)
        with k(2) have wf: "withinBounds ?f" and ef: "at (rgrid s) ?f = 0"
          by auto
        have "cx ?f \<noteq> x \<or> cy ?f \<noteq> y"
          using far cell_neq_iff [of ?f ?c] by simp
        then have "move_cell (vectors d) y x s = ok (slide_to s ?c ?f)"
          using False nomerge
          by (simp add: move_cell_def rd k(1) cm Let_def
              set2_wf [OF g wf] set2_wf [OF _ c, simplified] g slide_to_def)
        with far wf ef False show ?thesis by blast
      qed
    qed
  qed
qed

lemma move_cell_cases:
  assumes g: "wf_grid (rgrid s)" and m: "wf_grid (merged s)"
    and c: "withinBounds \<lparr>cx = x, cy = y\<rparr>"
  shows "move_cell (vectors d) y x s = ok s
     \<or> (\<exists>n. withinBounds n \<and> n \<noteq> \<lparr>cx = x, cy = y\<rparr> \<and> at (rgrid s) \<lparr>cx = x, cy = y\<rparr> \<noteq> 0
            \<and> at (rgrid s) n = at (rgrid s) \<lparr>cx = x, cy = y\<rparr> \<and> \<not> at (merged s) n
            \<and> move_cell (vectors d) y x s = ok (merge_into s \<lparr>cx = x, cy = y\<rparr> n))
     \<or> (\<exists>f. withinBounds f \<and> f \<noteq> \<lparr>cx = x, cy = y\<rparr> \<and> at (rgrid s) \<lparr>cx = x, cy = y\<rparr> \<noteq> 0
            \<and> at (rgrid s) f = 0
            \<and> move_cell (vectors d) y x s = ok (slide_to s \<lparr>cx = x, cy = y\<rparr> f))"
  using move_cell_steps [OF assms, of d] by blast

lemma indices_eq: "map int [0..<GRID_SIZE] = [0, 1, 2, 3]"
  by (simp add: GRID_SIZE_def upt_rec)

lemma set_traversals:
  "set (tx (buildTraversals v)) = {0, 1, 2, 3}" "set (ty (buildTraversals v)) = {0, 1, 2, 3}"
  by (auto simp: buildTraversals_def Let_def indices_eq)

lemma withinBounds_traversal:
  "x \<in> set (tx (buildTraversals v)) \<Longrightarrow> y \<in> set (ty (buildTraversals w)) \<Longrightarrow>
   withinBounds \<lparr>cx = x, cy = y\<rparr>"
  by (auto simp: set_traversals withinBounds_def GRID_SIZE_def)

lemma forEach_inv:
  assumes "I s" and "\<And>a s. a \<in> set as \<Longrightarrow> I s \<Longrightarrow> \<exists>s'. f a s = ok s' \<and> I s'"
  shows "\<exists>s'. forEach as f s = ok s' \<and> I s'"
  using assms
proof (induction as arbitrary: s)
  case Nil
  then show ?case by simp
next
  case (Cons a as)
  from Cons.prems obtain s1 where s1: "f a s = ok s1" "I s1"
    by (meson list.set_intros(1))
  from Cons.IH [OF s1(2)] Cons.prems(2) obtain s' where "forEach as f s1 = ok s'" "I s'"
    by (meson list.set_intros(2))
  with s1 show ?case by simp
qed

lemma wf_replicate [simp]: "wf_grid (replicate GRID_SIZE (replicate GRID_SIZE v))"
  by (simp add: wf_grid_def)

lemma wf_merge_into [simp]:
  "wf_grid (rgrid (merge_into s c n)) = wf_grid (rgrid s)"
  "wf_grid (merged (merge_into s c n)) = wf_grid (merged s)"
  by (simp_all add: merge_into_def)

lemma wf_slide_to [simp]:
  "wf_grid (rgrid (slide_to s c f)) = wf_grid (rgrid s)"
  "wf_grid (merged (slide_to s c f)) = wf_grid (merged s)"
  by (simp_all add: slide_to_def)

lemma resolve_inv:
  assumes wf: "wf_grid g"
    and init: "I (initial g sc)"
    and merge: "\<And>s c n. \<lbrakk>wf_grid (rgrid s); wf_grid (merged s); I s; withinBounds c;
        withinBounds n; n \<noteq> c; at (rgrid s) c \<noteq> 0; at (rgrid s) n = at (rgrid s) c;
        \<not> at (merged s) n\<rbrakk> \<Longrightarrow> I (merge_into s c n)"
    and slide: "\<And>s c f. \<lbrakk>wf_grid (rgrid s); wf_grid (merged s); I s; withinBounds c;
        withinBounds f; f \<noteq> c; at (rgrid s) c \<noteq> 0; at (rgrid s) f = 0\<rbrakk>
        \<Longrightarrow> I (slide_to s c f)"
  shows "\<exists>r. resolve d g sc = ok r \<and> wf_grid (rgrid r) \<and> wf_grid (merged r) \<and> I r"
proof -
  let ?t = "buildTraversals (vectors d)"
  let ?J = "\<lambda>s. wf_grid (rgrid s) \<and> wf_grid (merged s) \<and> I s"
  have cell: "\<exists>s'. move_cell (vectors d) y x s = ok s' \<and> ?J s'"
    if "x \<in> set (tx ?t)" "y \<in> set (ty ?t)" "?J s" for x y s
  proof -
    have c: "withinBounds \<lparr>cx = x, cy = y\<rparr>"
      using that(1,2) by (rule withinBounds_traversal)
    from that(3) have g: "wf_grid (rgrid s)" and m: "wf_grid (merged s)" and i: "I s"
      by simp_all
    from move_cell_cases [OF g m c, of d] show ?thesis
    proof (elim disjE exE conjE)
      assume "move_cell (vectors d) y x s = ok s"
      with that(3) show ?thesis by simp
    next
      fix n
      assume "withinBounds n" "n \<noteq> \<lparr>cx = x, cy = y\<rparr>" "at (rgrid s) \<lparr>cx = x, cy = y\<rparr> \<noteq> 0"
        "at (rgrid s) n = at (rgrid s) \<lparr>cx = x, cy = y\<rparr>" "\<not> at (merged s) n"
        and eq: "move_cell (vectors d) y x s = ok (merge_into s \<lparr>cx = x, cy = y\<rparr> n)"
      then have "I (merge_into s \<lparr>cx = x, cy = y\<rparr> n)"
        using g m i c by (intro merge)
      with eq g m show ?thesis by simp
    next
      fix f
      assume "withinBounds f" "f \<noteq> \<lparr>cx = x, cy = y\<rparr>" "at (rgrid s) \<lparr>cx = x, cy = y\<rparr> \<noteq> 0"
        "at (rgrid s) f = 0"
        and eq: "move_cell (vectors d) y x s = ok (slide_to s \<lparr>cx = x, cy = y\<rparr> f)"
      then have "I (slide_to s \<lparr>cx = x, cy = y\<rparr> f)"
        using g m i c by (intro slide)
      with eq g m show ?thesis by simp
    qed
  qed
  have row: "\<exists>s'. forEach (tx ?t) (\<lambda>x. move_cell (vectors d) y x) s = ok s' \<and> ?J s'"
    if "y \<in> set (ty ?t)" "?J s" for y s
    using that(2) cell [OF _ that(1)] by (rule forEach_inv)
  have "?J (initial g sc)"
    using wf init by (simp add: initial_def)
  then have "\<exists>s'. forEach (ty ?t) (\<lambda>y. forEach (tx ?t) (\<lambda>x. move_cell (vectors d) y x))
      (initial g sc) = ok s' \<and> ?J s'"
    using row by (rule forEach_inv)
  then show ?thesis
    by (simp add: resolve_def Let_def initial_def)
qed

lemma resolve_order:
  "resolve d g sc =
     forEach (ty (buildTraversals (vectors d)))
       (\<lambda>y. forEach (tx (buildTraversals (vectors d))) (\<lambda>x. move_cell (vectors d) y x))
       (initial g sc)"
  by (simp add: resolve_def Let_def initial_def)

lemma resolve_total: "wf_grid g \<Longrightarrow> \<exists>r. resolve d g sc = ok r \<and> wf_grid (rgrid r)"
  using resolve_inv [where I = "\<lambda>s. True"] by blast

lemma wf_sample_grid: "wf_grid sample_grid"
  by (simp add: wf_grid_def sample_grid_def GRID_SIZE_def)

lemma move_total:
  assumes "wf_grid (grid s)"
  shows "\<exists>b s'. move d s = ok (b, s')"
proof (cases "isAnimating s")
  case True
  then show ?thesis by (auto simp: move_def)
next
  case False
  from resolve_total [OF assms, of d "score s"] obtain r where "resolve d (grid s) (score s) = ok r"
    by blast
  with False show ?thesis by (auto simp: move_def Let_def)
qed

section \<open>Array accesses of a move stay on the board\<close>

text \<open>
  The model turns every array access outside the range into \<open>OutOfBounds\<close>; on a grid
  that is too short the resolution loop does fault.
\<close>

lemma short_grid_faults: "resolve Down [[2, 0, 0, 0]] 0 = Some (Inl OutOfBounds)"
  by code_simp

text \<open>
  C10. On a grid of \<open>GRID_SIZE\<close> rows of \<open>GRID_SIZE\<close> cells, and for each of the four
  directions, the farthest-position search started from any cell, the resolution loop of a
  move and \<open>move\<close> itself all return a value: none of them reads or writes an array
  outside its range (and none of them loops forever).
\<close>

theorem accesses_within_bounds:
  assumes "wf_grid g"
  shows "(\<exists>ps. findFarthestPosition g c (vectors d) = ok ps)
       \<and> (\<exists>r. resolve d g sc = ok r)
       \<and> (\<forall>s. grid s = g \<longrightarrow> (\<exists>b s'. move d s = ok (b, s')))"
  using ffp_char [OF assms, of c d] resolve_total [OF assms, of d sc] move_total [of _ d] assms
  by blast

theorem accesses_within_bounds_witness:
  "wf_grid sample_grid
   \<and> findFarthestPosition sample_grid \<lparr>cx = 3, cy = 1\<rparr> (vectors Left)
       = ok \<lparr>farthest = \<lparr>cx = 3, cy = 1\<rparr>, nxt = \<lparr>cx = 2, cy = 1\<rparr>\<rparr>
   \<and> resolve Down sample_grid 0 \<noteq> Some (Inl OutOfBounds)
   \<and> resolve Down sample_grid 0 \<noteq> None"
proof -
  have "findFarthestPosition sample_grid \<lparr>cx = 3, cy = 1\<rparr> (vectors Left)
       = ok \<lparr>farthest = \<lparr>cx = 3, cy = 1\<rparr>, nxt = \<lparr>cx = 2, cy = 1\<rparr>\<rparr>"
    by code_simp
  then show ?thesis
    using accesses_within_bounds [OF wf_sample_grid, of "\<lparr>cx = 3, cy = 1\<rparr>" Down 0] wf_sample_grid
    by (auto simp: ok_def)
qed

section \<open>The tile total across a move\<close>

lemma sum_list_upd_int:
  "k < length xs \<Longrightarrow> sum_list (xs[k := x]) = sum_list xs - xs ! k + (x::int)"
  by (induction xs arbitrary: k) (auto split: nat.splits)

lemma withinBounds_nat:
  "withinBounds c \<Longrightarrow> nat (cy c) < GRID_SIZE \<and> nat (cx c) < GRID_SIZE"
  by (auto simp: withinBounds_def)

lemma grid_sum_upd:
  assumes "wf_grid g" "withinBounds c"
  shows "grid_sum (upd g c v) = grid_sum g - at g c + v"
proof -
  let ?i = "nat (cy c)" and ?j = "nat (cx c)"
  from assms have i: "?i < length g" and j: "?j < length (g ! ?i)"
    using withinBounds_nat [of c] by (simp_all add: wf_grid_nth)
  have "grid_sum (upd g c v) = sum_list ((map sum_list g)[?i := sum_list ((g ! ?i)[?j := v])])"
    by (simp add: grid_sum_def upd_def map_update)
  also have "\<dots> = grid_sum g - sum_list (g ! ?i) + sum_list ((g ! ?i)[?j := v])"
    using i by (simp add: sum_list_upd_int grid_sum_def)
  also have "\<dots> = grid_sum g - at g c + v"
    using j by (simp add: sum_list_upd_int at_def)
  finally show ?thesis .
qed

lemma at_upd:
  assumes "wf_grid a" "withinBounds c" "withinBounds n"
  shows "at (upd a n v) c = (if c = n then v else at a c)"
proof -
  from assms have b: "nat (cy c) < length a" "nat (cx c) < length (a ! nat (cy c))"
    "nat (cy n) < length a" "nat (cx n) < length (a ! nat (cy n))"
    using withinBounds_nat [of c] withinBounds_nat [of n] by (simp_all add: wf_grid_nth)
  have "c = n \<longleftrightarrow> nat (cy c) = nat (cy n) \<and> nat (cx c) = nat (cx n)"
    using assms(2,3) by (auto simp: withinBounds_def cell.equality)
  with b show ?thesis
    by (auto simp: at_def upd_def nth_list_update)
qed

lemma resolve_conserves:
  assumes "wf_grid g"
  shows "\<exists>r. resolve d g sc = ok r \<and> grid_sum (rgrid r) = grid_sum g
           \<and> rscore r = sc + merge_values (mergedTiles r)"
proof -
  let ?I = "\<lambda>s::resolution. grid_sum (rgrid s) = grid_sum g
              \<and> rscore s = sc + merge_values (mergedTiles s)"
  have "\<exists>r. resolve d g sc = ok r \<and> wf_grid (rgrid r) \<and> wf_grid (merged r) \<and> ?I r"
  proof (rule resolve_inv [OF assms])
    show "?I (initial g sc)"
      by (simp add: initial_def merge_values_def)
  next
    fix s c n
    assume "wf_grid (rgrid s)" "?I s" "withinBounds c" "withinBounds n" "n \<noteq> c"
      "at (rgrid s) n = at (rgrid s) c"
    then show "?I (merge_into s c n)"
      by (simp add: merge_into_def grid_sum_upd at_upd merge_values_def)
  next
    fix s c f
    assume "wf_grid (rgrid s)" "?I s" "withinBounds c" "withinBounds f" "f \<noteq> c"
      "at (rgrid s) f = 0"
    then show "?I (slide_to s c f)"
      by (simp add: slide_to_def grid_sum_upd at_upd)
  qed
  then show ?thesis by blast
qed

lemma wf_pair_grid: "wf_grid pair_grid"
  by (simp add: wf_grid_def pair_grid_def GRID_SIZE_def)

lemma resolve_pair_grid:
  "resolve Left pair_grid 0 =
     ok \<lparr>rgrid = [[4, 0, 0, 0], [0, 0, 0, 0], [0, 0, 0, 0], [0, 0, 0, 0]], rscore = 4,
         moved = True, mergedTiles = [\<lparr>mrow = 0, mcol = 0, mvalue = 4\<rparr>],
         merged = [[True, False, False, False], [False, False, False, False],
                   [False, False, False, False], [False, False, False, False]]\<rparr>"
  by code_simp

text \<open>
  C1 as stated fails: sliding the row \<open>2, 2, 0, 0\<close> to the left merges once, into a
  \<open>4\<close>. The tiles add up to 4 before and after the move; the claim asks for 4 + 4.
\<close>

theorem sum_plus_merges_counterexample:
  "resolve Left pair_grid 0 =
     ok \<lparr>rgrid = [[4, 0, 0, 0], [0, 0, 0, 0], [0, 0, 0, 0], [0, 0, 0, 0]], rscore = 4,
         moved = True, mergedTiles = [\<lparr>mrow = 0, mcol = 0, mvalue = 4\<rparr>],
         merged = [[True, False, False, False], [False, False, False, False],
                   [False, False, False, False], [False, False, False, False]]\<rparr>
   \<and> grid_sum [[4, 0, 0, 0], [0, 0, 0, 0], [0, 0, 0, 0], [0, 0, 0, 0]]
       \<noteq> grid_sum pair_grid + merge_values [\<lparr>mrow = 0, mcol = 0, mvalue = 4\<rparr>]"
  by code_simp

text \<open>
  C1, amended. For every direction and every well-formed grid, the resolution loop of a
  move returns, the tiles of the resulting grid (before any spawn) add up to what they
  added up to before the move, with or without merges, and the values of the merge events
  are what the loop has added to the score.
\<close>

theorem move_conserves_sum:
  assumes "wf_grid g"
  shows "\<exists>r. resolve d g sc = ok r \<and> grid_sum (rgrid r) = grid_sum g
           \<and> rscore r = sc + merge_values (mergedTiles r)"
  using assms by (rule resolve_conserves)

theorem move_conserves_sum_witness:
  "wf_grid pair_grid
   \<and> grid_sum [[4, 0, 0, 0], [0, 0, 0, 0], [0, 0, 0, 0], [0, 0, 0, 0]] = grid_sum pair_grid
   \<and> (4::int) = 0 + merge_values [\<lparr>mrow = 0, mcol = 0, mvalue = 4\<rparr>]"
  using move_conserves_sum [OF wf_pair_grid, of Left 0] wf_pair_grid
  by (simp add: resolve_pair_grid)

section \<open>A horizontal move, row by row\<close>

text \<open>
  A move to the left or to the right works on each row by itself: while the loop is on one
  row, the other rows of \<open>grid\<close> and of \<open>merged\<close> stay as they are. So what
  happens to a row does not depend on the rest of the grid.
\<close>

lemma upd_other_row: "nat (cy c) \<noteq> i \<Longrightarrow> upd a c v ! i = a ! i"
  by (simp add: upd_def)

lemma cy_advance_horizontal:
  "d = Left \<or> d = Right \<Longrightarrow> cy (advance c (vectors d) k) = cy c"
  by (auto simp: advance_def)

lemma move_cell_other_row:
  assumes g: "wf_grid (rgrid s)" and m: "wf_grid (merged s)"
    and c: "withinBounds \<lparr>cx = x, cy = y\<rparr>"
    and d: "d = Left \<or> d = Right" and i: "i \<noteq> nat y"
  shows "\<exists>s'. move_cell (vectors d) y x s = ok s' \<and> wf_grid (rgrid s') \<and> wf_grid (merged s')
           \<and> rgrid s' ! i = rgrid s ! i \<and> merged s' ! i = merged s ! i"
proof -
  have row: "nat (cy (advance \<lparr>cx = x, cy = y\<rparr> (vectors d) k)) \<noteq> i" for k
    using i by (simp add: cy_advance_horizontal [OF d])
  from move_cell_steps [OF g m c, of d] show ?thesis
  proof (elim disjE exE conjE)
    assume "move_cell (vectors d) y x s = ok s"
    with g m show ?thesis by simp
  next
    fix n k
    assume "n = advance \<lparr>cx = x, cy = y\<rparr> (vectors d) k"
      "move_cell (vectors d) y x s = ok (merge_into s \<lparr>cx = x, cy = y\<rparr> n)"
    with g m i row [of k] show ?thesis
      by (simp add: merge_into_def upd_other_row)
  next
    fix f k
    assume "f = advance \<lparr>cx = x, cy = y\<rparr> (vectors d) k"
      "move_cell (vectors d) y x s = ok (slide_to s \<lparr>cx = x, cy = y\<rparr> f)"
    with g m i row [of k] show ?thesis
      by (simp add: slide_to_def upd_other_row)
  qed
qed

lemma rows_frame:
  assumes g: "wf_grid (rgrid s)" and m: "wf_grid (merged s)"
    and d: "d = Left \<or> d = Right"
    and ys: "set ys \<subseteq> {0, 1, 2, 3}" "int i \<notin> set ys"
  shows "\<exists>s'. forEach ys (\<lambda>y. forEach (tx (buildTraversals (vectors d)))
                                (\<lambda>x. move_cell (vectors d) y x)) s = ok s'
           \<and> wf_grid (rgrid s') \<and> wf_grid (merged s')
           \<and> rgrid s' ! i = rgrid s ! i \<and> merged s' ! i = merged s ! i"
proof -
  let ?I = "\<lambda>t::resolution. wf_grid (rgrid t) \<and> wf_grid (merged t)
              \<and> rgrid t ! i = rgrid s ! i \<and> merged t ! i = merged s ! i"
  have cell: "\<exists>t'. move_cell (vectors d) y x t = ok t' \<and> ?I t'"
    if "y \<in> set ys" "x \<in> set (tx (buildTraversals (vectors d)))" "?I t" for x y t
  proof -
    from that(1) ys have y: "y \<in> {0, 1, 2, 3}" "i \<noteq> nat y" by auto
    with that(2) have c: "withinBounds \<lparr>cx = x, cy = y\<rparr>"
      by (auto simp: set_traversals withinBounds_def GRID_SIZE_def)
    from that(3) move_cell_other_row [OF _ _ c d y(2), of t] show ?thesis
      by auto
  qed
  have row: "\<exists>t'. forEach (tx (buildTraversals (vectors d))) (\<lambda>x. move_cell (vectors d) y x) t = ok t' \<and> ?I t'"
    if "y \<in> set ys" "?I t" for y t
    using that(2) cell [OF that(1)] by (rule forEach_inv)
  have "?I s" using g m by simp
  then show ?thesis using row by (rule forEach_inv)
qed

lemma bind_assoc: "bind (bind m f) h = bind m (\<lambda>a. bind (f a) h)"
  by (simp add: bind_def split: option.splits sum.splits)

lemma forEach_append: "forEach (as @ bs) f s = bind (forEach as f s) (forEach bs f)"
proof (induction as arbitrary: s)
  case Nil
  show ?case by simp
next
  case (Cons a as)
  have "forEach (as @ bs) f = (\<lambda>t. bind (forEach as f t) (forEach bs f))"
    using Cons.IH by blast
  then show ?case by (simp add: bind_assoc)
qed

lemma row_left_222:
  assumes g: "wf_grid (rgrid s)" and m: "wf_grid (merged s)"
    and y: "0 \<le> y" "y < 4"
    and row: "rgrid s ! nat y = [2, 2, 2, 0]"
    and flags: "merged s ! nat y = [False, False, False, False]"
  shows "\<exists>s'. forEach [0, 1, 2, 3] (\<lambda>x. move_cell (vectors Left) y x) s = ok s'
           \<and> wf_grid (rgrid s') \<and> wf_grid (merged s') \<and> rgrid s' ! nat y = [4, 2, 0, 0]"
proof -
  from g m have len: "length (rgrid s) = 4" "length (merged s) = 4"
    by (simp_all add: wf_grid_nth GRID_SIZE_def)
  have wfu: "wf_grid (a[nat y := r])" if "wf_grid a" "length r = 4" for a :: "'a list list" and r
    using that by (auto simp: wf_grid_def GRID_SIZE_def dest!: set_update_subset_insert [THEN subsetD])
  show ?thesis
    using y row flags g m
    by (simp add: len move_cell_def can_merge_def get2_def set2_def in_range_def Let_def
        ffp_step withinBounds_def advance_def at_def GRID_SIZE_def wfu ok_def bind_def)
qed


lemma row_right_222:
  assumes g: "wf_grid (rgrid s)" and m: "wf_grid (merged s)"
    and y: "0 \<le> y" "y < 4"
    and row: "rgrid s ! nat y = [0, 2, 2, 2]"
    and flags: "merged s ! nat y = [False, False, False, False]"
  shows "\<exists>s'. forEach [3, 2, 1, 0] (\<lambda>x. move_cell (vectors Right) y x) s = ok s'
           \<and> wf_grid (rgrid s') \<and> wf_grid (merged s') \<and> rgrid s' ! nat y = [0, 0, 2, 4]"
proof -
  from g m have len: "length (rgrid s) = 4" "length (merged s) = 4"
    by (simp_all add: wf_grid_nth GRID_SIZE_def)
  have wfu: "wf_grid (a[nat y := r])" if "wf_grid a" "length r = 4" for a :: "'a list list" and r
    using that by (auto simp: wf_grid_def GRID_SIZE_def dest!: set_update_subset_insert [THEN subsetD])
  show ?thesis
    using y row flags g m
    by (simp add: len move_cell_def can_merge_def get2_def set2_def in_range_def Let_def
        ffp_step withinBounds_def advance_def at_def GRID_SIZE_def wfu ok_def bind_def)
qed

lemma resolve_row:
  assumes wf: "wf_grid g" and i: "i < 4" and d: "d = Left \<or> d = Right"
    and row: "\<And>t. \<lbrakk>wf_grid (rgrid t); wf_grid (merged t); rgrid t ! i = g ! i;
                   merged t ! i = [False, False, False, False]\<rbrakk>
        \<Longrightarrow> \<exists>t'. forEach (tx (buildTraversals (vectors d)))
                   (\<lambda>x. move_cell (vectors d) (int i) x) t = ok t'
                 \<and> wf_grid (rgrid t') \<and> wf_grid (merged t') \<and> rgrid t' ! i = R"
  shows "\<exists>r. resolve d g sc = ok r \<and> rgrid r ! i = R"
proof -
  let ?F = "\<lambda>y. forEach (tx (buildTraversals (vectors d))) (\<lambda>x. move_cell (vectors d) y x)"
  have ys: "ty (buildTraversals (vectors d)) = [0, 1, 2, 3]"
    using d by (auto simp: buildTraversals_def Let_def indices_eq)
  from i have "int i \<in> set [0, 1, 2, 3 :: int]" by auto
  then obtain pre post where split: "[0, 1, 2, 3 :: int] = pre @ int i # post"
    by (meson split_list)
  have "distinct [0, 1, 2, 3 :: int]" by simp
  then have notin: "int i \<notin> set pre" "int i \<notin> set post"
    unfolding split by auto
  have "set pre \<union> set post \<subseteq> set [0, 1, 2, 3 :: int]"
    unfolding split by auto
  then have sub: "set pre \<subseteq> {0, 1, 2, 3}" "set post \<subseteq> {0, 1, 2, 3}"
    by auto
  let ?s0 = "initial g sc"
  have flags: "replicate 4 False = [False, False, False, False]"
    by (simp add: numeral_eq_Suc)
  have "merged ?s0 ! i = replicate 4 False"
    using i by (simp add: initial_def GRID_SIZE_def)
  then have s0: "wf_grid (rgrid ?s0)" "wf_grid (merged ?s0)" "rgrid ?s0 ! i = g ! i"
    "merged ?s0 ! i = [False, False, False, False]"
    using wf by (simp_all add: initial_def flags)
  from rows_frame [OF s0(1,2) d sub(1) notin(1)] obtain s1 where
    s1: "forEach pre ?F ?s0 = ok s1" "wf_grid (rgrid s1)" "wf_grid (merged s1)"
      "rgrid s1 ! i = rgrid ?s0 ! i" "merged s1 ! i = merged ?s0 ! i"
    by blast
  from row [of s1] s1 s0 obtain s2 where
    s2: "?F (int i) s1 = ok s2" "wf_grid (rgrid s2)" "wf_grid (merged s2)" "rgrid s2 ! i = R"
    by auto
  from rows_frame [OF s2(2,3) d sub(2) notin(2)] obtain s3 where
    s3: "forEach post ?F s2 = ok s3" "rgrid s3 ! i = rgrid s2 ! i"
    by blast
  have "resolve d g sc = forEach (pre @ int i # post) ?F ?s0"
    unfolding resolve_order ys split ..
  also have "\<dots> = ok s3"
    by (simp add: forEach_append s1 s2 s3)
  finally show ?thesis using s3(2) s2(4) by simp
qed

lemma left_row_222:
  assumes "wf_grid g" "i < 4" "g ! i = [2, 2, 2, 0]"
  shows "\<exists>r. resolve Left g sc = ok r \<and> rgrid r ! i = [4, 2, 0, 0]"
proof (rule resolve_row [OF assms(1,2)])
  show "Left = Left \<or> Left = Right" by simp
next
  fix t :: resolution
  assume "wf_grid (rgrid t)" "wf_grid (merged t)" "rgrid t ! i = g ! i"
    "merged t ! i = [False, False, False, False]"
  with row_left_222 [of t "int i"] assms(2,3)
  show "\<exists>t'. forEach (tx (buildTraversals (vectors Left)))
                   (\<lambda>x. move_cell (vectors Left) (int i) x) t = ok t'
                 \<and> wf_grid (rgrid t') \<and> wf_grid (merged t') \<and> rgrid t' ! i = [4, 2, 0, 0]"
    by (simp add: buildTraversals_def Let_def indices_eq)
qed

lemma right_row_222:
  assumes "wf_grid g" "i < 4" "g ! i = [0, 2, 2, 2]"
  shows "\<exists>r. resolve Right g sc = ok r \<and> rgrid r ! i = [0, 0, 2, 4]"
proof (rule resolve_row [OF assms(1,2)])
  show "Right = Left \<or> Right = Right" by simp
next
  fix t :: resolution
  assume "wf_grid (rgrid t)" "wf_grid (merged t)" "rgrid t ! i = g ! i"
    "merged t ! i = [False, False, False, False]"
  with row_right_222 [of t "int i"] assms(2,3)
  show "\<exists>t'. forEach (tx (buildTraversals (vectors Right)))
                   (\<lambda>x. move_cell (vectors Right) (int i) x) t = ok t'
                 \<and> wf_grid (rgrid t') \<and> wf_grid (merged t') \<and> rgrid t' ! i = [0, 0, 2, 4]"
    by (simp add: buildTraversals_def Let_def indices_eq)
qed

section \<open>One merge per cell\<close>

lemma resolve_merges_distinct:
  assumes "wf_grid g"
  shows "\<exists>r. resolve d g sc = ok r \<and> distinct (map merge_cell (mergedTiles r))"
proof -
  let ?I = "\<lambda>s::resolution. distinct (map merge_cell (mergedTiles s))
              \<and> (\<forall>e \<in> set (mergedTiles s). withinBounds (merge_cell e) \<and> at (merged s) (merge_cell e))"
  have "\<exists>r. resolve d g sc = ok r \<and> wf_grid (rgrid r) \<and> wf_grid (merged r) \<and> ?I r"
  proof (rule resolve_inv [OF assms, where I = ?I])
    show "?I (initial g sc)"
      by (simp add: initial_def)
  next
    fix s c n
    assume a: "wf_grid (merged s)" "?I s" "withinBounds n" "\<not> at (merged s) n"
    then have new: "n \<notin> merge_cell ` set (mergedTiles s)"
      by auto
    have old: "at (upd (merged s) n True) (merge_cell e)" if "e \<in> set (mergedTiles s)" for e
      using a that by (simp add: at_upd)
    have "merge_cell \<lparr>mrow = cy n, mcol = cx n, mvalue = v\<rparr> = n" for v
      by (simp add: merge_cell_def)
    with a new old show "?I (merge_into s c n)"
      by (simp add: merge_into_def at_upd)
  next
    fix s c f
    assume "?I s"
    then show "?I (slide_to s c f)"
      by (simp add: slide_to_def)
  qed
  then show ?thesis by blast
qed

lemma wf_triple_grid: "wf_grid triple_grid"
  by (simp add: wf_grid_def triple_grid_def GRID_SIZE_def)

lemma resolve_triple_grid:
  "resolve Left triple_grid 0 =
     ok \<lparr>rgrid = [[4, 2, 0, 0], [4, 2, 0, 0], [4, 2, 0, 0], [4, 2, 0, 0]], rscore = 16,
         moved = True,
         mergedTiles = [\<lparr>mrow = 0, mcol = 0, mvalue = 4\<rparr>, \<lparr>mrow = 1, mcol = 0, mvalue = 4\<rparr>,
                        \<lparr>mrow = 2, mcol = 0, mvalue = 4\<rparr>, \<lparr>mrow = 3, mcol = 0, mvalue = 4\<rparr>],
         merged = [[True, False, False, False], [True, False, False, False],
                   [True, False, False, False], [True, False, False, False]]\<rparr>"
  by code_simp

text \<open>
  C2. In the resolution loop of a move, in any direction and from any well-formed grid, no
  two merge events name the same destination cell; and whichever row of a well-formed grid
  is \<open>2, 2, 2, 0\<close>, sliding left leaves that row as \<open>4, 2, 0, 0\<close>.
\<close>

theorem merge_once:
  "(wf_grid g \<longrightarrow> (\<exists>r. resolve d g sc = ok r \<and> distinct (map merge_cell (mergedTiles r))))
   \<and> (wf_grid g \<and> i < 4 \<and> g ! i = [2, 2, 2, 0] \<longrightarrow>
        (\<exists>r. resolve Left g sc = ok r \<and> rgrid r ! i = [4, 2, 0, 0]))"
  using resolve_merges_distinct [of g d sc] left_row_222 [of g i sc] by blast

theorem merge_once_witness:
  "wf_grid triple_grid \<and> (2::nat) < 4 \<and> triple_grid ! 2 = [2, 2, 2, 0]
   \<and> distinct (map merge_cell
        [\<lparr>mrow = 0, mcol = 0, mvalue = 4\<rparr>, \<lparr>mrow = 1, mcol = 0, mvalue = 4\<rparr>,
         \<lparr>mrow = 2, mcol = 0, mvalue = 4\<rparr>, \<lparr>mrow = 3, mcol = 0, mvalue = 4\<rparr>])
   \<and> [[4, 2, 0, 0], [4, 2, 0, 0], [4, 2, 0, 0], [4, 2, 0, 0]] ! 2 = [4, 2, 0, (0::int)]"
proof -
  have row: "triple_grid ! 2 = [2, 2, 2, 0]"
    by (simp add: triple_grid_def)
  from merge_once [of triple_grid Left 0 2] wf_triple_grid row
  have "\<exists>r. resolve Left triple_grid 0 = ok r \<and> distinct (map merge_cell (mergedTiles r))"
    by simp
  then show ?thesis
    using wf_triple_grid row by (simp add: resolve_triple_grid)
qed

section \<open>A move that moves nothing\<close>

lemma resolve_unmoved:
  assumes "wf_grid g"
  shows "\<exists>r. resolve d g sc = ok r
           \<and> (moved r \<or> (rgrid r = g \<and> rscore r = sc \<and> mergedTiles r = []))"
proof -
  let ?I = "\<lambda>s::resolution. moved s \<or> (rgrid s = g \<and> rscore s = sc \<and> mergedTiles s = [])"
  have "\<exists>r. resolve d g sc = ok r \<and> wf_grid (rgrid r) \<and> wf_grid (merged r) \<and> ?I r"
    by (rule resolve_inv [OF assms, where I = ?I]) (simp_all add: initial_def merge_into_def slide_to_def)
  then show ?thesis by blast
qed

text \<open>
  C4. On a well-formed grid \<open>move\<close> returns, and when it returns \<open>false\<close> the state
  is the one it was called in: the same grid, the same score, and no callback scheduled
  (\<open>pending\<close> is unchanged), so no tile is spawned.
\<close>

theorem unmoved_unchanged:
  assumes "wf_grid (grid s)"
  shows "\<exists>b s'. move d s = ok (b, s') \<and> (\<not> b \<longrightarrow> s' = s)"
proof (cases "isAnimating s")
  case True
  then have "move d s = ok (False, s)" by (simp add: move_def)
  then show ?thesis by blast
next
  case False
  from resolve_unmoved [OF assms, of d "score s"] obtain r where
    r: "resolve d (grid s) (score s) = ok r"
    "moved r \<or> (rgrid r = grid s \<and> rscore r = score s \<and> mergedTiles r = [])"
    by blast
  show ?thesis
  proof (cases "moved r")
    case True
    with False r(1) have "\<exists>s'. move d s = ok (True, s')"
      by (simp add: move_def Let_def)
    then show ?thesis by blast
  next
    case unmoved: False
    with r(2) have "s\<lparr>grid := rgrid r, score := rscore r\<rparr> = s"
      by simp
    with False r(1) unmoved have "move d s = ok (False, s)"
      by (simp add: move_def Let_def)
    then show ?thesis by blast
  qed
qed

lemma wf_compact_state: "wf_grid (grid compact_state)"
  by (simp add: wf_grid_def compact_state_def compact_grid_def GRID_SIZE_def)

lemma move_compact_state: "move Left compact_state = ok (False, compact_state)"
  by code_simp

theorem unmoved_unchanged_witness:
  "wf_grid (grid compact_state) \<and> move Left compact_state = ok (False, compact_state)"
  using unmoved_unchanged [OF wf_compact_state, of Left] wf_compact_state
  by (simp add: move_compact_state)

section \<open>Traversal order\<close>

lemma resolve_right_grid:
  "resolve Right right_grid 0 =
     ok \<lparr>rgrid = [[0, 0, 2, 4], [0, 0, 2, 4], [0, 0, 2, 4], [0, 0, 2, 4]], rscore = 16,
         moved = True,
         mergedTiles = [\<lparr>mrow = 0, mcol = 3, mvalue = 4\<rparr>, \<lparr>mrow = 1, mcol = 3, mvalue = 4\<rparr>,
                        \<lparr>mrow = 2, mcol = 3, mvalue = 4\<rparr>, \<lparr>mrow = 3, mcol = 3, mvalue = 4\<rparr>],
         merged = [[False, False, False, True], [False, False, False, True],
                   [False, False, False, True], [False, False, False, True]]\<rparr>"
  by code_simp

text \<open>
  C3. \<open>buildTraversals\<close> lists the columns in descending order exactly when the
  vector's x component is 1 (a move to the right) and the rows in descending order exactly
  when its y component is 1 (a move down), and in ascending order otherwise; the loop of
  \<open>resolve\<close> runs over the rows in the order of the one list and, within a row, over
  the columns in the order of the other; and whichever row of a well-formed grid is
  \<open>0, 2, 2, 2\<close>, sliding right leaves that row as \<open>0, 0, 2, 4\<close>.
\<close>

theorem traversal_order:
  "tx (buildTraversals v) = (if cx v = 1 then [3, 2, 1, 0] else [0, 1, 2, 3])
   \<and> ty (buildTraversals v) = (if cy v = 1 then [3, 2, 1, 0] else [0, 1, 2, 3])
   \<and> buildTraversals (vectors Right) = \<lparr>tx = [3, 2, 1, 0], ty = [0, 1, 2, 3]\<rparr>
   \<and> buildTraversals (vectors Down) = \<lparr>tx = [0, 1, 2, 3], ty = [3, 2, 1, 0]\<rparr>
   \<and> buildTraversals (vectors Left) = \<lparr>tx = [0, 1, 2, 3], ty = [0, 1, 2, 3]\<rparr>
   \<and> buildTraversals (vectors Up) = \<lparr>tx = [0, 1, 2, 3], ty = [0, 1, 2, 3]\<rparr>
   \<and> resolve d g sc =
       forEach (ty (buildTraversals (vectors d)))
         (\<lambda>y. forEach (tx (buildTraversals (vectors d))) (\<lambda>x. move_cell (vectors d) y x))
         (initial g sc)
   \<and> (wf_grid g \<and> i < 4 \<and> g ! i = [0, 2, 2, 2] \<longrightarrow>
        (\<exists>r. resolve Right g sc = ok r \<and> rgrid r ! i = [0, 0, 2, 4]))"
proof -
  have "wf_grid g \<and> i < 4 \<and> g ! i = [0, 2, 2, 2] \<longrightarrow>
        (\<exists>r. resolve Right g sc = ok r \<and> rgrid r ! i = [0, 0, 2, 4])"
    using right_row_222 [of g i sc] by blast
  then show ?thesis
    using resolve_order [of d g sc]
    by (simp add: buildTraversals_def Let_def indices_eq)
qed

lemma wf_right_grid: "wf_grid right_grid"
  by (simp add: wf_grid_def right_grid_def GRID_SIZE_def)

theorem traversal_order_witness:
  "tx (buildTraversals \<lparr>cx = 1, cy = 0\<rparr>) = [3, 2, 1, 0]
   \<and> ty (buildTraversals \<lparr>cx = 1, cy = 0\<rparr>) = [0, 1, 2, 3]
   \<and> wf_grid right_grid \<and> (1::nat) < 4 \<and> right_grid ! 1 = [0, 2, 2, 2]
   \<and> [[0, 0, 2, 4], [0, 0, 2, 4], [0, 0, 2, 4], [0, 0, 2, 4]] ! 1 = [0, 0, 2, (4::int)]"
proof -
  have row: "right_grid ! 1 = [0, 2, 2, 2]"
    by (simp add: right_grid_def)
  note t = traversal_order [of "\<lparr>cx = 1, cy = 0\<rparr>" Right right_grid 0 1]
  from t have lists: "tx (buildTraversals \<lparr>cx = 1, cy = 0\<rparr>) = [3, 2, 1, 0]"
    "ty (buildTraversals \<lparr>cx = 1, cy = 0\<rparr>) = [0, 1, 2, 3]"
    by simp_all
  have "(1::nat) < 4" by simp
  with t wf_right_grid row
  have "\<exists>r. resolve Right right_grid 0 = ok r \<and> rgrid r ! 1 = [0, 0, 2, 4]"
    by blast
  then have "[[0, 0, 2, 4], [0, 0, 2, 4], [0, 0, 2, 4], [0, 0, 2, 4]] ! 1 = [0, 0, 2, (4::int)]"
    by (simp add: resolve_right_grid)
  with lists wf_right_grid row show ?thesis
    by simp
qed

section \<open>The farthest-position search\<close>

text \<open>
  Sliding the row \<open>2, 2, 4, 0\<close> to the left: once the first two cells of the row are
  done, the loop holds \<open>passed_grid\<close> and \<open>passed_flags\<close>, and the move ends with the
  row \<open>4, 4, 0, 0\<close>.
\<close>

lemma passed_state_reached:
  "forEach [0, 1] (move_cell (vectors Left) 0)
     (initial [[2, 2, 4, 0], [0, 0, 0, 0], [0, 0, 0, 0], [0, 0, 0, 0]] 0)
   = ok \<lparr>rgrid = passed_grid, rscore = 4, moved = True,
         mergedTiles = [\<lparr>mrow = 0, mcol = 0, mvalue = 4\<rparr>], merged = passed_flags\<rparr>"
  "outcome (resolve Left [[2, 2, 4, 0], [0, 0, 0, 0], [0, 0, 0, 0], [0, 0, 0, 0]] 0)
   = ok ([[4, 4, 0, 0], [0, 0, 0, 0], [0, 0, 0, 0], [0, 0, 0, 0]], True,
         [\<lparr>mrow = 0, mcol = 0, mvalue = 4\<rparr>])"
  by code_simp+

text \<open>
  C5 as stated fails: the search of the code stops in front of every non-empty cell,
  merged into or not. With a \<open>4\<close> that was merged into at the left edge, the \<open>4\<close>
  in the third column lands in the second column and \<open>next\<close> is the merged cell; the
  walk the claim words passes over the merged cell and leaves the board.
\<close>

theorem walk_ignores_merged_counterexample:
  "findFarthestPosition passed_grid \<lparr>cx = 2, cy = 0\<rparr> (vectors Left)
     = ok \<lparr>farthest = \<lparr>cx = 1, cy = 0\<rparr>, nxt = \<lparr>cx = 0, cy = 0\<rparr>\<rparr>
   \<and> spec_walk passed_grid passed_flags \<lparr>cx = 2, cy = 0\<rparr> Left
     = \<lparr>farthest = \<lparr>cx = 0, cy = 0\<rparr>, nxt = \<lparr>cx = -1, cy = 0\<rparr>\<rparr>"
  by code_simp

text \<open>
  C5, amended. On a well-formed grid and for each of the four directions, the search
  returns: it has walked some number \<open>k\<close> of steps from the cell, every cell it stepped
  on is on the board and empty, and the step after the last would leave the board or land
  on a non-empty cell, whether or not that cell was merged into during this move. The
  landing spot is the last cell reached (the start when \<open>k = 0\<close>) and \<open>next\<close> is the
  cell immediately beyond it.
\<close>

theorem farthest_position_search:
  assumes "wf_grid g"
  shows "\<exists>k. findFarthestPosition g c (vectors d) =
            ok \<lparr>farthest = advance c (vectors d) k, nxt = advance c (vectors d) (Suc k)\<rparr>
          \<and> (\<forall>i. 1 \<le> i \<and> i \<le> k \<longrightarrow>
                withinBounds (advance c (vectors d) i) \<and> at g (advance c (vectors d) i) = 0)
          \<and> (\<not> withinBounds (advance c (vectors d) (Suc k))
               \<or> at g (advance c (vectors d) (Suc k)) \<noteq> 0)"
  using ffp_char [OF assms, of c d] by simp

lemma ffp_sample:
  "findFarthestPosition sample_grid \<lparr>cx = 2, cy = 1\<rparr> (vectors Left)
     = ok \<lparr>farthest = \<lparr>cx = 1, cy = 1\<rparr>, nxt = \<lparr>cx = 0, cy = 1\<rparr>\<rparr>"
  by code_simp

theorem farthest_position_search_witness:
  "wf_grid sample_grid
   \<and> findFarthestPosition sample_grid \<lparr>cx = 2, cy = 1\<rparr> (vectors Left)
       = ok \<lparr>farthest = advance \<lparr>cx = 2, cy = 1\<rparr> (vectors Left) 1,
             nxt = advance \<lparr>cx = 2, cy = 1\<rparr> (vectors Left) 2\<rparr>
   \<and> at sample_grid (advance \<lparr>cx = 2, cy = 1\<rparr> (vectors Left) 1) = 0
   \<and> at sample_grid (advance \<lparr>cx = 2, cy = 1\<rparr> (vectors Left) 2) = 2"
proof -
  have cells: "advance \<lparr>cx = 2, cy = 1\<rparr> (vectors Left) 1 = \<lparr>cx = 1, cy = 1\<rparr>"
    "advance \<lparr>cx = 2, cy = 1\<rparr> (vectors Left) 2 = \<lparr>cx = 0, cy = 1\<rparr>"
    by (simp_all add: advance_def)
  have vals: "at sample_grid \<lparr>cx = 1, cy = 1\<rparr> = 0" "at sample_grid \<lparr>cx = 0, cy = 1\<rparr> = 2"
    by (simp_all add: at_def sample_grid_def)
  from farthest_position_search [OF wf_sample_grid, of "\<lparr>cx = 2, cy = 1\<rparr>" Left]
  have "\<exists>ps. findFarthestPosition sample_grid \<lparr>cx = 2, cy = 1\<rparr> (vectors Left) = ok ps"
    by blast
  then show ?thesis
    using wf_sample_grid unfolding cells vals ffp_sample by simp
qed

section \<open>The resolution of a move depends on the grid and the direction only\<close>

lemma agree_ok [simp]: "agree R (ok a) (ok b) = R a b"
  by (simp add: agree_def ok_def)

lemma agree_bind:
  assumes "agree Q m1 m2" and "\<And>a b. Q a b \<Longrightarrow> agree R (f1 a) (f2 b)"
  shows "agree R (bind m1 f1) (bind m2 f2)"
proof (cases m1)
  case None
  with assms(1) show ?thesis by (cases m2) (simp_all add: agree_def)
next
  case (Some r1)
  with assms(1) obtain r2 where m2: "m2 = Some r2" and rel: "rel_sum (=) Q r1 r2"
    by (cases m2) (auto simp: agree_def)
  show ?thesis
  proof (cases r1)
    case (Inl e1)
    with rel Some m2 show ?thesis by (cases r2) (simp_all add: agree_def)
  next
    case (Inr a)
    with rel obtain b where "r2 = Inr b" "Q a b" by (cases r2) simp_all
    with Inr Some m2 assms(2) [of a b] show ?thesis by (simp add: bind_def)
  qed
qed

lemma agree_refl: "(\<And>a. R a a) \<Longrightarrow> agree R m m"
  by (cases m) (auto simp: agree_def intro: sum.rel_refl)

lemma agree_eq_bind:
  assumes "\<And>a. agree R (f1 a) (f2 a)"
  shows "agree R (bind m f1) (bind m f2)"
  by (rule agree_bind [where Q = "(=)"]) (simp_all add: agree_refl assms)

lemma set_rscore: "same_board s1 s2 \<Longrightarrow> s2 = s1\<lparr>rscore := rscore s2\<rparr>"
  by (simp add: same_board_def)

lemma move_cell_agree:
  assumes "same_board s1 s2"
  shows "agree same_board (move_cell v y x s1) (move_cell v y x s2)"
proof -
  from assms have eq: "rgrid s2 = rgrid s1" "merged s2 = merged s1" "moved s2 = moved s1"
    "mergedTiles s2 = mergedTiles s1"
    by (simp_all add: same_board_def)
  have cm: "can_merge s2 n t = can_merge s1 n t" for n t
    unfolding can_merge_def eq ..
  show ?thesis
    unfolding move_cell_def Let_def eq cm
    by (intro agree_eq_bind) (auto simp: same_board_def eq assms intro!: agree_eq_bind)
qed

lemma forEach_agree:
  assumes "\<And>a s1 s2. R s1 s2 \<Longrightarrow> agree R (f a s1) (f a s2)" and "R s1 s2"
  shows "agree R (forEach as f s1) (forEach as f s2)"
  using assms(2)
proof (induction as arbitrary: s1 s2)
  case Nil
  then show ?case by simp
next
  case (Cons a as)
  show ?case
    unfolding forEach.simps
    by (rule agree_bind [OF assms(1) [OF Cons.prems]]) (rule Cons.IH)
qed

lemma resolve_agree: "agree same_board (resolve d g sc1) (resolve d g sc2)"
  unfolding resolve_def Let_def
  by (intro forEach_agree move_cell_agree) (simp_all add: same_board_def)

lemma outcome_agree: "agree same_board m1 m2 \<Longrightarrow> outcome m1 = outcome m2"
  unfolding agree_def outcome_def
  by (cases m1; cases m2) (auto simp: same_board_def elim!: rel_sum.cases)

lemma resolve_pair_grid_100:
  "resolve Left pair_grid 100 =
     ok \<lparr>rgrid = [[4, 0, 0, 0], [0, 0, 0, 0], [0, 0, 0, 0], [0, 0, 0, 0]], rscore = 104,
         moved = True, mergedTiles = [\<lparr>mrow = 0, mcol = 0, mvalue = 4\<rparr>],
         merged = [[True, False, False, False], [False, False, False, False],
                   [False, False, False, False], [False, False, False, False]]\<rparr>"
  by code_simp

text \<open>
  C9. \<open>resolve\<close> takes the direction, the grid and the score, and no random number
  (those are arguments of \<open>spawnTile\<close> only). Two runs of it in the same direction from
  the same grid, whatever the scores they start with, end alike (both return, or both
  fault), with the same resulting grid, the same \<open>moved\<close> flag and the same list of
  merge events.
\<close>

theorem resolution_deterministic:
  "outcome (resolve d g sc1) = outcome (resolve d g sc2)"
  by (rule outcome_agree) (rule resolve_agree)

theorem resolution_deterministic_witness:
  "outcome (resolve Left pair_grid 0) = outcome (resolve Left pair_grid 100)
   \<and> outcome (resolve Left pair_grid 100)
       = ok ([[4, 0, 0, 0], [0, 0, 0, 0], [0, 0, 0, 0], [0, 0, 0, 0]], True,
             [\<lparr>mrow = 0, mcol = 0, mvalue = 4\<rparr>])"
  using resolution_deterministic [of Left pair_grid 0 100]
  by (simp add: resolve_pair_grid_100 outcome_def ok_def)

section \<open>Moves available\<close>

lemma indices_list: "indices = [0, 1, 2, 3]"
  by (simp add: indices_def indices_eq)

lemma in_indices: "i \<in> set indices \<longleftrightarrow> 0 \<le> i \<and> i < int GRID_SIZE"
  by (auto simp: indices_list GRID_SIZE_def)

lemma set_all_cells: "c \<in> set all_cells \<longleftrightarrow> withinBounds c"
proof -
  have "c \<in> set all_cells \<longleftrightarrow> (\<exists>y \<in> set indices. \<exists>x \<in> set indices. c = \<lparr>cx = x, cy = y\<rparr>)"
    by (auto simp: all_cells_def)
  also have "\<dots> \<longleftrightarrow> cx c \<in> set indices \<and> cy c \<in> set indices"
  proof
    assume "\<exists>y \<in> set indices. \<exists>x \<in> set indices. c = \<lparr>cx = x, cy = y\<rparr>"
    then obtain x y where "x \<in> set indices" "y \<in> set indices" "c = \<lparr>cx = x, cy = y\<rparr>"
      by blast
    then show "cx c \<in> set indices \<and> cy c \<in> set indices" by simp
  next
    assume "cx c \<in> set indices \<and> cy c \<in> set indices"
    moreover have "c = \<lparr>cx = cx c, cy = cy c\<rparr>" by simp
    ultimately show "\<exists>y \<in> set indices. \<exists>x \<in> set indices. c = \<lparr>cx = x, cy = y\<rparr>"
      by blast
  qed
  also have "\<dots> \<longleftrightarrow> withinBounds c"
    by (simp add: in_indices withinBounds_def)
  finally show ?thesis .
qed

lemma any_of_ok:
  assumes "\<And>a. a \<in> set as \<Longrightarrow> p a = ok (q a)"
  shows "any_of as p = ok (\<exists>a \<in> set as. q a)"
  using assms by (induction as) auto

lemma withinBounds_indices:
  "row \<in> set indices \<Longrightarrow> col \<in> set indices \<Longrightarrow> withinBounds \<lparr>cx = col, cy = row\<rparr>"
  by (simp add: in_indices withinBounds_def)

lemma get2_indices:
  assumes "wf_grid g" "row \<in> set indices" "col \<in> set indices"
  shows "get2 g row col = ok (at g \<lparr>cx = col, cy = row\<rparr>)"
  using get2_wf [OF assms(1) withinBounds_indices [OF assms(2,3)]] by simp

lemma neighbour_equal_ok:
  assumes "wf_grid g" "row \<in> set indices" "col \<in> set indices"
  shows "neighbour_equal g row col =
     ok ((row < 3 \<and> at g \<lparr>cx = col, cy = row + 1\<rparr> = at g \<lparr>cx = col, cy = row\<rparr>)
       \<or> (col < 3 \<and> at g \<lparr>cx = col + 1, cy = row\<rparr> = at g \<lparr>cx = col, cy = row\<rparr>))"
proof -
  have below: "get2 g (row + 1) col = ok (at g \<lparr>cx = col, cy = row + 1\<rparr>)" if "row < 3"
    using get2_wf [OF assms(1), of "\<lparr>cx = col, cy = row + 1\<rparr>"] that assms(2,3)
    by (simp add: in_indices withinBounds_def GRID_SIZE_def)
  have right: "get2 g row (col + 1) = ok (at g \<lparr>cx = col + 1, cy = row\<rparr>)" if "col < 3"
    using get2_wf [OF assms(1), of "\<lparr>cx = col + 1, cy = row\<rparr>"] that assms(2,3)
    by (simp add: in_indices withinBounds_def GRID_SIZE_def)
  show ?thesis
    by (simp add: neighbour_equal_def get2_indices [OF assms] below right GRID_SIZE_def)
qed

lemma movesAvailable_ok:
  assumes "wf_grid g"
  shows "movesAvailable g =
     ok ((\<exists>row \<in> set indices. \<exists>col \<in> set indices. at g \<lparr>cx = col, cy = row\<rparr> = 0)
       \<or> (\<exists>row \<in> set indices. \<exists>col \<in> set indices.
            (row < 3 \<and> at g \<lparr>cx = col, cy = row + 1\<rparr> = at g \<lparr>cx = col, cy = row\<rparr>)
          \<or> (col < 3 \<and> at g \<lparr>cx = col + 1, cy = row\<rparr> = at g \<lparr>cx = col, cy = row\<rparr>)))"
proof -
  have e: "any_of indices (\<lambda>row. any_of indices (\<lambda>col. bind (get2 g row col) (\<lambda>v. ok (v = 0))))
      = ok (\<exists>row \<in> set indices. \<exists>col \<in> set indices. at g \<lparr>cx = col, cy = row\<rparr> = 0)"
    by (intro any_of_ok) (simp add: get2_indices [OF assms])
  have p: "any_of indices (\<lambda>row. any_of indices (\<lambda>col. neighbour_equal g row col))
      = ok (\<exists>row \<in> set indices. \<exists>col \<in> set indices.
            (row < 3 \<and> at g \<lparr>cx = col, cy = row + 1\<rparr> = at g \<lparr>cx = col, cy = row\<rparr>)
          \<or> (col < 3 \<and> at g \<lparr>cx = col + 1, cy = row\<rparr> = at g \<lparr>cx = col, cy = row\<rparr>))"
    by (intro any_of_ok) (simp add: neighbour_equal_ok [OF assms])
  show ?thesis
    unfolding movesAvailable_def e p by simp
qed

lemma cell_eq_iff: "c = \<lparr>cx = p, cy = q\<rparr> \<longleftrightarrow> cx c = p \<and> cy c = q"
  by (cases c) auto

lemma adjacent_cases:
  "adjacent a b \<longleftrightarrow> b = below a \<or> a = below b \<or> b = right_of a \<or> a = right_of b"
proof -
  have "adjacent a b \<longleftrightarrow>
      (cx b = cx a \<and> cy b = cy a + 1) \<or> (cx a = cx b \<and> cy a = cy b + 1)
    \<or> (cx b = cx a + 1 \<and> cy b = cy a) \<or> (cx a = cx b + 1 \<and> cy a = cy b)"
    unfolding adjacent_def by arith
  then show ?thesis
    by (simp add: below_def right_of_def cell_eq_iff)
qed

lemma loops_as_cells:
  "(\<exists>row \<in> set indices. \<exists>col \<in> set indices. Q \<lparr>cx = col, cy = row\<rparr>)
     \<longleftrightarrow> (\<exists>c. withinBounds c \<and> Q c)"
proof -
  have "(\<exists>row \<in> set indices. \<exists>col \<in> set indices. Q \<lparr>cx = col, cy = row\<rparr>)
     \<longleftrightarrow> (\<exists>c \<in> set all_cells. Q c)"
    by (auto simp: all_cells_def)
  then show ?thesis by (simp add: set_all_cells Bex_def)
qed

lemma movesAvailable_cells:
  assumes "wf_grid g"
  shows "movesAvailable g =
     ok ((\<exists>c. withinBounds c \<and> at g c = 0)
       \<or> (\<exists>c. withinBounds c \<and> ((cy c < 3 \<and> at g (below c) = at g c)
                                \<or> (cx c < 3 \<and> at g (right_of c) = at g c))))"
proof -
  have "(\<exists>row \<in> set indices. \<exists>col \<in> set indices.
            (row < 3 \<and> at g \<lparr>cx = col, cy = row + 1\<rparr> = at g \<lparr>cx = col, cy = row\<rparr>)
          \<or> (col < 3 \<and> at g \<lparr>cx = col + 1, cy = row\<rparr> = at g \<lparr>cx = col, cy = row\<rparr>))
      \<longleftrightarrow> (\<exists>c. withinBounds c \<and> ((cy c < 3 \<and> at g (below c) = at g c)
                                \<or> (cx c < 3 \<and> at g (right_of c) = at g c)))"
    using loops_as_cells [of "\<lambda>c. (cy c < 3 \<and> at g (below c) = at g c)
                                \<or> (cx c < 3 \<and> at g (right_of c) = at g c)"]
    by (simp add: below_def right_of_def)
  then show ?thesis
    unfolding movesAvailable_ok [OF assms] loops_as_cells [of "\<lambda>c. at g c = 0"] by simp
qed

lemma has_empty_iff: "has_empty g \<longleftrightarrow> (\<exists>c. withinBounds c \<and> at g c = 0)"
  by (simp add: has_empty_def set_all_cells Bex_def)

lemma has_equal_pair_iff:
  "has_equal_pair g \<longleftrightarrow>
     (\<exists>a b. withinBounds a \<and> withinBounds b \<and> adjacent a b \<and> at g a \<noteq> 0 \<and> at g a = at g b)"
  by (simp add: has_equal_pair_def set_all_cells Bex_def)

lemma withinBounds_below: "withinBounds c \<Longrightarrow> withinBounds (below c) \<longleftrightarrow> cy c < 3"
  by (auto simp: withinBounds_def below_def GRID_SIZE_def)

lemma withinBounds_right_of: "withinBounds c \<Longrightarrow> withinBounds (right_of c) \<longleftrightarrow> cx c < 3"
  by (auto simp: withinBounds_def right_of_def GRID_SIZE_def)

lemma adjacent_below [simp]: "adjacent c (below c)"
  by (simp add: adjacent_def below_def)

lemma adjacent_right_of [simp]: "adjacent c (right_of c)"
  by (simp add: adjacent_def right_of_def)

text \<open>
  C7. On a well-formed grid \<open>movesAvailable\<close> returns, and it returns \<open>true\<close>
  exactly when some cell is empty or two tiles that share an edge have equal values;
  looking at the neighbour below and the neighbour to the right of every cell finds every
  such pair. So it returns \<open>false\<close> on a full board without such a pair and
  \<open>true\<close> on a full board with one.
\<close>

theorem moves_available_iff:
  assumes "wf_grid g"
  shows "movesAvailable g = ok (has_empty g \<or> has_equal_pair g)"
proof -
  let ?E = "\<exists>c. withinBounds c \<and> at g c = 0"
  let ?N = "\<exists>c. withinBounds c \<and> ((cy c < 3 \<and> at g (below c) = at g c)
                                \<or> (cx c < 3 \<and> at g (right_of c) = at g c))"
  have "has_equal_pair g \<or> ?E" if ?N
  proof -
    from that obtain c b where c: "withinBounds c" "withinBounds b" "adjacent c b" "at g b = at g c"
      using withinBounds_below withinBounds_right_of adjacent_below adjacent_right_of by metis
    show ?thesis
    proof (cases "at g c = 0")
      case True
      with c(1) show ?thesis by blast
    next
      case False
      with c show ?thesis unfolding has_equal_pair_iff by metis
    qed
  qed
  moreover have ?N if "has_equal_pair g"
  proof -
    from that obtain a b where ab: "withinBounds a" "withinBounds b" "adjacent a b" "at g a = at g b"
      unfolding has_equal_pair_iff by blast
    from ab(3) consider "b = below a" | "a = below b" | "b = right_of a" | "a = right_of b"
      unfolding adjacent_cases by blast
    then show ?thesis
    proof cases
      case 1
      with ab withinBounds_below [of a] show ?thesis by metis
    next
      case 2
      with ab withinBounds_below [of b] show ?thesis by metis
    next
      case 3
      with ab withinBounds_right_of [of a] show ?thesis by metis
    next
      case 4
      with ab withinBounds_right_of [of b] show ?thesis by metis
    qed
  qed
  ultimately have "(?E \<or> ?N) \<longleftrightarrow> (has_empty g \<or> has_equal_pair g)"
    unfolding has_empty_iff by blast
  then show ?thesis
    unfolding movesAvailable_cells [OF assms] by simp
qed

lemma wf_stuck_grid: "wf_grid stuck_grid"
  by (simp add: wf_grid_def stuck_grid_def GRID_SIZE_def)

lemma wf_full_pair_grid: "wf_grid full_pair_grid"
  by (simp add: wf_grid_def full_pair_grid_def GRID_SIZE_def)

lemma stuck_facts: "\<not> has_empty stuck_grid" "\<not> has_equal_pair stuck_grid"
  by code_simp+

lemma full_pair_facts: "\<not> has_empty full_pair_grid" "has_equal_pair full_pair_grid"
  by code_simp+

theorem moves_available_iff_witness:
  "wf_grid stuck_grid \<and> \<not> has_empty stuck_grid \<and> \<not> has_equal_pair stuck_grid
   \<and> movesAvailable stuck_grid = ok False
   \<and> wf_grid full_pair_grid \<and> \<not> has_empty full_pair_grid \<and> has_equal_pair full_pair_grid
   \<and> movesAvailable full_pair_grid = ok True"
  using moves_available_iff [OF wf_stuck_grid] moves_available_iff [OF wf_full_pair_grid]
    wf_stuck_grid wf_full_pair_grid
  by (simp add: stuck_facts full_pair_facts)

section \<open>Tile values\<close>

lemma pow2_power: "1 \<le> k \<Longrightarrow> pow2 (2 ^ k)"
proof (induction k)
  case 0
  then show ?case by simp
next
  case (Suc k)
  show ?case
  proof (cases "k = 0")
    case True
    then show ?thesis by (subst pow2.simps) simp
  next
    case False
    then have "1 \<le> k" by simp
    with Suc.IH have "pow2 (2 ^ k)" .
    moreover have "(2::int) < 2 ^ Suc k"
      using False power_strict_increasing [of 1 "Suc k" "2::int"] by simp
    ultimately show ?thesis
      by (subst pow2.simps) simp
  qed
qed

lemma pow2_is_power: "pow2 v \<Longrightarrow> \<exists>k\<ge>1. v = 2 ^ k"
proof (induction v rule: pow2.induct)
  case (1 v)
  show ?case
  proof (cases "v = 2")
    case True
    then have "1 \<le> (1::nat) \<and> v = 2 ^ 1" by simp
    then show ?thesis by blast
  next
    case False
    from "1.prems" have big: "\<not> v < 2" and rest: "v = 2 \<or> (even v \<and> pow2 (v div 2))"
      by (subst (asm) pow2.simps, simp split: if_splits)+
    with False have ev: "even v" and half: "pow2 (v div 2)" by simp_all
    from "1.IH" [OF big False half] obtain k where k: "1 \<le> k" "v div 2 = 2 ^ k"
      by blast
    from ev k(2) have "v = 2 ^ Suc k" by auto
    with k(1) show ?thesis by (metis le_SucI)
  qed
qed

lemma pow2_iff: "pow2 v \<longleftrightarrow> (\<exists>k\<ge>1. v = 2 ^ k)"
  using pow2_is_power pow2_power by blast

lemma tile_value_double: "tile_value v \<Longrightarrow> v \<noteq> 0 \<Longrightarrow> tile_value (v * 2)"
proof -
  assume "tile_value v" "v \<noteq> 0"
  then obtain k where "1 \<le> k" "v = 2 ^ k"
    by (auto simp: tile_value_def pow2_iff)
  then have "1 \<le> Suc k" "v * 2 = 2 ^ Suc k" by simp_all
  then show ?thesis unfolding tile_value_def pow2_iff by blast
qed

lemma tile_value_spawn [simp]: "tile_value 0" "tile_value 2" "tile_value 4"
proof -
  have "(2::int) = 2 ^ 1" "(4::int) = 2 ^ 2" by simp_all
  then have "pow2 2" "pow2 4"
    unfolding pow2_iff by (metis one_le_numeral order_refl)+
  then show "tile_value 0" "tile_value 2" "tile_value 4"
    by (simp_all add: tile_value_def)
qed

lemma valid_at:
  assumes "valid_tiles g" "wf_grid g" "withinBounds c"
  shows "tile_value (at g c)"
proof -
  from assms(2,3) have "nat (cy c) < length g" "nat (cx c) < length (g ! nat (cy c))"
    using withinBounds_nat [of c] by (simp_all add: wf_grid_nth)
  then have "g ! nat (cy c) \<in> set g" "at g c \<in> set (g ! nat (cy c))"
    by (simp_all add: at_def)
  with assms(1) show ?thesis unfolding valid_tiles_def by blast
qed

lemma valid_upd:
  assumes "valid_tiles g" "tile_value v"
  shows "valid_tiles (upd g c v)"
proof -
  have "tile_value w" if "row \<in> set (upd g c v)" "w \<in> set row" for row w
  proof -
    from that(1) have "row \<in> insert ((g ! nat (cy c))[nat (cx c) := v]) (set g)"
      unfolding upd_def using set_update_subset_insert by fast
    then show ?thesis
    proof
      assume "row = (g ! nat (cy c))[nat (cx c) := v]"
      with that(2) have w: "w \<in> insert v (set (g ! nat (cy c)))"
        using set_update_subset_insert by fast
      show ?thesis
      proof (cases "nat (cy c) < length g")
        case True
        then have "g ! nat (cy c) \<in> set g" by simp
        with w assms show ?thesis unfolding valid_tiles_def by blast
      next
        case False
        then have "upd g c v = g" by (simp add: upd_def list_update_beyond)
        with that assms(1) show ?thesis unfolding valid_tiles_def by auto
      qed
    next
      assume "row \<in> set g"
      with that(2) assms(1) show ?thesis unfolding valid_tiles_def by blast
    qed
  qed
  then show ?thesis unfolding valid_tiles_def by blast
qed

lemma resolve_valid:
  assumes "board_ok g"
  shows "\<exists>r. resolve d g sc = ok r \<and> board_ok (rgrid r)"
proof -
  let ?I = "\<lambda>s::resolution. valid_tiles (rgrid s)"
  from assms have wf: "wf_grid g" and v: "valid_tiles g"
    by (simp_all add: board_ok_def)
  have "\<exists>r. resolve d g sc = ok r \<and> wf_grid (rgrid r) \<and> wf_grid (merged r) \<and> ?I r"
  proof (rule resolve_inv [OF wf, where I = ?I])
    show "?I (initial g sc)"
      using v by (simp add: initial_def)
  next
    fix s c n
    assume "wf_grid (rgrid s)" "?I s" "withinBounds c" "at (rgrid s) c \<noteq> 0"
    then show "?I (merge_into s c n)"
      by (simp add: merge_into_def valid_upd valid_at tile_value_double)
  next
    fix s c f
    assume "wf_grid (rgrid s)" "?I s" "withinBounds c"
    then show "?I (slide_to s c f)"
      by (simp add: slide_to_def valid_upd valid_at)
  qed
  then show ?thesis by (auto simp: board_ok_def)
qed

section \<open>Spawning and the callback of a move\<close>

lemma emptyCells_ok:
  assumes "wf_grid g"
  shows "\<exists>cells. emptyCells g = ok cells
           \<and> (\<forall>p \<in> set cells. withinBounds \<lparr>cx = snd p, cy = fst p\<rparr>
                                \<and> at g \<lparr>cx = snd p, cy = fst p\<rparr> = 0)"
proof -
  let ?I = "\<lambda>acc::(int \<times> int) list. \<forall>p \<in> set acc. withinBounds \<lparr>cx = snd p, cy = fst p\<rparr>
                                \<and> at g \<lparr>cx = snd p, cy = fst p\<rparr> = 0"
  let ?body = "\<lambda>row col acc. bind (get2 g row col)
                 (\<lambda>v. ok (if v = 0 then acc @ [(row, col)] else acc))"
  have cell: "\<exists>acc'. ?body row col acc = ok acc' \<and> ?I acc'"
    if "row \<in> set indices" "col \<in> set indices" "?I acc" for row col acc
    using that withinBounds_indices [OF that(1,2)]
    by (simp add: get2_indices [OF assms that(1,2)])
  have row: "\<exists>acc'. forEach indices (?body row) acc = ok acc' \<and> ?I acc'"
    if "row \<in> set indices" "?I acc" for row acc
    using that(2) cell [OF that(1)] by (rule forEach_inv)
  have "\<exists>acc'. forEach indices (\<lambda>row. forEach indices (?body row)) [] = ok acc' \<and> ?I acc'"
    by (rule forEach_inv [where I = ?I]) (simp, rule row)
  then show ?thesis by (simp add: emptyCells_def)
qed

lemma spawnTile_cases:
  assumes "wf_grid g"
  shows "spawnTile r g = ok g
       \<or> (\<exists>c. withinBounds c \<and> at g c = 0
              \<and> spawnTile r g = ok (upd g c (if value_draw r then 2 else 4)))"
proof -
  from emptyCells_ok [OF assms] obtain cells where
    cells: "emptyCells g = ok cells"
      "\<forall>p \<in> set cells. withinBounds \<lparr>cx = snd p, cy = fst p\<rparr> \<and> at g \<lparr>cx = snd p, cy = fst p\<rparr> = 0"
    by blast
  show ?thesis
  proof (cases "length cells > 0")
    case False
    with cells(1) show ?thesis by (simp add: spawnTile_def)
  next
    case True
    let ?p = "cells ! (cell_draw r mod length cells)"
    let ?c = "\<lparr>cx = snd ?p, cy = fst ?p\<rparr>"
    from True have "?p \<in> set cells" by simp
    with cells(2) have c: "withinBounds ?c" "at g ?c = 0" by blast+
    from set2_wf [OF assms c(1)]
    have "spawnTile r g = ok (upd g ?c (if value_draw r then 2 else 4))"
      using True cells(1) by (simp add: spawnTile_def case_prod_beta)
    with c show ?thesis by blast
  qed
qed

lemma spawnTile_wf:
  assumes "wf_grid g"
  shows "\<exists>g'. spawnTile r g = ok g' \<and> wf_grid g'"
  using spawnTile_cases [OF assms, of r] assms by auto

lemma spawnTile_board_ok:
  assumes "board_ok g"
  shows "\<exists>g'. spawnTile r g = ok g' \<and> board_ok g'"
proof -
  from assms have wf: "wf_grid g" and v: "valid_tiles g" by (simp_all add: board_ok_def)
  have "valid_tiles (upd g c (if value_draw r then 2 else 4))" for c
    using v by (intro valid_upd) simp_all
  with spawnTile_cases [OF wf, of r] assms show ?thesis
    by (auto simp: board_ok_def)
qed

lemma hasReached2048_ok:
  assumes "wf_grid g"
  shows "hasReached2048 g =
     ok (\<exists>row \<in> set indices. \<exists>col \<in> set indices. at g \<lparr>cx = col, cy = row\<rparr> \<ge> 2048)"
  unfolding hasReached2048_def
  by (intro any_of_ok) (simp add: get2_indices [OF assms])

lemma move_callback_cases:
  assumes "wf_grid (grid s)"
  shows "\<exists>g'. spawnTile r (grid s) = ok g' \<and> wf_grid g'
     \<and> ((\<not> hasWon s \<and> move_callback r s =
            ok (showGameMessage ''You Win!'' True (s\<lparr>grid := g', isAnimating := False, hasWon := True\<rparr>)))
        \<or> move_callback r s = ok (showGameMessage ''Game Over!'' False (s\<lparr>grid := g', isAnimating := False\<rparr>))
        \<or> move_callback r s = ok (s\<lparr>grid := g', isAnimating := False\<rparr>))"
proof -
  from spawnTile_wf [OF assms, of r] obtain g' where g': "spawnTile r (grid s) = ok g'" "wf_grid g'"
    by blast
  obtain w where w: "hasReached2048 g' = ok w"
    using hasReached2048_ok [OF g'(2)] by blast
  obtain a where a: "movesAvailable g' = ok a"
    using movesAvailable_ok [OF g'(2)] by blast
  have "(\<not> hasWon s \<and> move_callback r s =
            ok (showGameMessage ''You Win!'' True (s\<lparr>grid := g', isAnimating := False, hasWon := True\<rparr>)))
        \<or> move_callback r s = ok (showGameMessage ''Game Over!'' False (s\<lparr>grid := g', isAnimating := False\<rparr>))
        \<or> move_callback r s = ok (s\<lparr>grid := g', isAnimating := False\<rparr>)"
    by (cases "hasWon s"; cases w; cases a) (simp_all add: move_callback_def g' w a Let_def)
  with g' show ?thesis by blast
qed

lemma move_effect:
  assumes "wf_grid (grid s)"
  shows "\<exists>b s'. move d s = ok (b, s') \<and> wf_grid (grid s') \<and> hasWon s' = hasWon s
           \<and> shown s' = shown s \<and> (valid_tiles (grid s) \<longrightarrow> valid_tiles (grid s'))"
proof (cases "isAnimating s")
  case True
  then have "move d s = ok (False, s)" by (simp add: move_def)
  with assms show ?thesis by blast
next
  case False
  have "\<exists>r. resolve d (grid s) (score s) = ok r \<and> wf_grid (rgrid r)
          \<and> (valid_tiles (grid s) \<longrightarrow> valid_tiles (rgrid r))"
  proof (cases "valid_tiles (grid s)")
    case True
    with assms resolve_valid [of "grid s" d "score s"] show ?thesis
      by (auto simp: board_ok_def)
  next
    case False
    with resolve_total [OF assms, of d "score s"] show ?thesis by auto
  qed
  then obtain r where r: "resolve d (grid s) (score s) = ok r" "wf_grid (rgrid r)"
    "valid_tiles (grid s) \<longrightarrow> valid_tiles (rgrid r)"
    by blast
  show ?thesis
  proof (cases "moved r")
    case True
    let ?s' = "(updateScore (s\<lparr>grid := rgrid r, score := rscore r, isAnimating := True\<rparr>))
                 \<lparr>pending := pending s + 1\<rparr>"
    from True False r(1) have "move d s = ok (True, ?s')"
      by (simp add: move_def Let_def)
    moreover have "grid ?s' = rgrid r" "hasWon ?s' = hasWon s" "shown ?s' = shown s"
      by (simp_all add: updateScore_def)
    ultimately show ?thesis using r(2,3) by metis
  next
    case unmoved: False
    let ?s' = "s\<lparr>grid := rgrid r, score := rscore r\<rparr>"
    from unmoved False r(1) have "move d s = ok (False, ?s')"
      by (simp add: move_def Let_def)
    moreover have "grid ?s' = rgrid r" "hasWon ?s' = hasWon s" "shown ?s' = shown s"
      by simp_all
    ultimately show ?thesis using r(2,3) by metis
  qed
qed

lemma startNewGame_effect:
  "\<exists>s'. startNewGame r1 r2 s = ok s' \<and> board_ok (grid s') \<and> \<not> hasWon s' \<and> shown s' = shown s"
proof -
  let ?g0 = "replicate GRID_SIZE (replicate GRID_SIZE (0::int))"
  have "board_ok ?g0"
    by (simp add: board_ok_def valid_tiles_def)
  from spawnTile_board_ok [OF this, of r1] obtain g1 where g1: "spawnTile r1 ?g0 = ok g1" "board_ok g1"
    by blast
  from spawnTile_board_ok [OF g1(2), of r2] obtain g2 where g2: "spawnTile r2 g1 = ok g2" "board_ok g2"
    by blast
  show ?thesis
    using g1 g2 by (simp add: startNewGame_def Let_def updateScore_def)
qed

section \<open>Sessions\<close>

lemma step_effect:
  assumes "wf_grid (grid s)"
  shows "\<exists>s'. step e s = ok s' \<and> wf_grid (grid s')
           \<and> (valid_tiles (grid s) \<longrightarrow> valid_tiles (grid s'))
           \<and> (\<not> is_NewGame e \<longrightarrow> (hasWon s \<longrightarrow> hasWon s')
                \<and> won_signals s' = won_signals s + (if hasWon s' \<and> \<not> hasWon s then 1 else 0))"
proof (cases e)
  case (Move d)
  from move_effect [OF assms, of d] obtain b s' where
    "move d s = ok (b, s')" "wf_grid (grid s')" "hasWon s' = hasWon s" "shown s' = shown s"
    "valid_tiles (grid s) \<longrightarrow> valid_tiles (grid s')"
    by blast
  with Move show ?thesis by (simp add: won_signals_def)
next
  case (Timeout r)
  show ?thesis
  proof (cases "pending s = 0")
    case True
    with Timeout assms show ?thesis by simp
  next
    case False
    let ?s = "s\<lparr>pending := pending s - 1\<rparr>"
    have wf: "wf_grid (grid ?s)" using assms by simp
    from move_callback_cases [OF wf, of r] obtain g' where
      g': "spawnTile r (grid s) = ok g'" "wf_grid g'"
      and cb: "(\<not> hasWon s \<and> move_callback r ?s =
            ok (showGameMessage ''You Win!'' True (?s\<lparr>grid := g', isAnimating := False, hasWon := True\<rparr>)))
        \<or> move_callback r ?s = ok (showGameMessage ''Game Over!'' False (?s\<lparr>grid := g', isAnimating := False\<rparr>))
        \<or> move_callback r ?s = ok (?s\<lparr>grid := g', isAnimating := False\<rparr>)"
      by auto
    have v: "valid_tiles g'" if "valid_tiles (grid s)"
      using spawnTile_board_ok [of "grid s" r] that assms g'(1) by (auto simp: board_ok_def)
    from cb show ?thesis
    proof (elim disjE conjE)
      assume "\<not> hasWon s" "move_callback r ?s =
            ok (showGameMessage ''You Win!'' True (?s\<lparr>grid := g', isAnimating := False, hasWon := True\<rparr>))"
      with Timeout False g'(2) v show ?thesis
        by (simp add: showGameMessage_def won_signals_def wins_def)
    next
      assume "move_callback r ?s = ok (showGameMessage ''Game Over!'' False (?s\<lparr>grid := g', isAnimating := False\<rparr>))"
      with Timeout False g'(2) v show ?thesis
        by (simp add: showGameMessage_def won_signals_def wins_def)
    next
      assume "move_callback r ?s = ok (?s\<lparr>grid := g', isAnimating := False\<rparr>)"
      with Timeout False g'(2) v show ?thesis
        by (simp add: won_signals_def)
    qed
  qed
next
  case (NewGame r1 r2)
  from startNewGame_effect [of r1 r2 s] obtain s' where
    "startNewGame r1 r2 s = ok s'" "board_ok (grid s')"
    by blast
  with NewGame show ?thesis by (simp add: board_ok_def)
qed

lemma run_board_ok:
  assumes "board_ok (grid s)"
  shows "\<exists>s'. run es s = ok s' \<and> board_ok (grid s')"
  unfolding run_def
proof (rule forEach_inv [where I = "\<lambda>s. board_ok (grid s)"])
  show "board_ok (grid s)" by (rule assms)
next
  fix e and s :: state
  assume "board_ok (grid s)"
  with step_effect [of s e] show "\<exists>s'. step e s = ok s' \<and> board_ok (grid s')"
    by (auto simp: board_ok_def)
qed

lemma run_won:
  assumes "wf_grid (grid s)" "no_new_game es"
  shows "\<exists>s'. run es s = ok s' \<and> (hasWon s \<longrightarrow> hasWon s')
           \<and> won_signals s' = won_signals s + (if hasWon s' \<and> \<not> hasWon s then 1 else 0)"
proof -
  let ?I = "\<lambda>t::state. wf_grid (grid t) \<and> (hasWon s \<longrightarrow> hasWon t)
              \<and> won_signals t = won_signals s + (if hasWon t \<and> \<not> hasWon s then 1 else 0)"
  have "\<exists>s'. forEach es step s = ok s' \<and> ?I s'"
  proof (rule forEach_inv [where I = ?I])
    show "?I s" using assms(1) by simp
  next
    fix e and t :: state
    assume e: "e \<in> set es" and t: "?I t"
    from t have wf: "wf_grid (grid t)" and mono: "hasWon s \<longrightarrow> hasWon t"
      and count: "won_signals t = won_signals s + (if hasWon t \<and> \<not> hasWon s then 1 else 0)"
      by blast+
    from e assms(2) have ng: "\<not> is_NewGame e"
      by (auto simp: no_new_game_def list_ex_iff)
    from step_effect [OF wf, of e] ng obtain t' where
      t': "step e t = ok t'" "wf_grid (grid t')" "hasWon t \<longrightarrow> hasWon t'"
        "won_signals t' = won_signals t + (if hasWon t' \<and> \<not> hasWon t then 1 else 0)"
      by blast
    have "won_signals t' = won_signals s + (if hasWon t' \<and> \<not> hasWon s then 1 else 0)"
      using mono t'(3) by (cases "hasWon s"; cases "hasWon t"; cases "hasWon t'")
        (simp_all add: count t'(4))
    with t' mono have "?I t'" by simp
    with t'(1) show "\<exists>s'. step e t = ok s' \<and> ?I s'" by blast
  qed
  then show ?thesis unfolding run_def by blast
qed

section \<open>Every cell is empty or a power of two\<close>

lemma forEach_collect:
  assumes "\<And>a acc. a \<in> set xs \<Longrightarrow> body a acc = ok (acc @ h a)"
  shows "forEach xs body acc = ok (acc @ concat (map h xs))"
  using assms by (induction xs arbitrary: acc) simp_all

lemma map_filter_cells:
  "map f (filter P (concat (map (\<lambda>y. map (\<lambda>x. k x y) xs) ys)))
     = concat (map (\<lambda>y. concat (map (\<lambda>x. if P (k x y) then [f (k x y)] else []) xs)) ys)"
proof -
  have inner: "map f (filter P (map (\<lambda>x. k x y) zs))
      = concat (map (\<lambda>x. if P (k x y) then [f (k x y)] else []) zs)" for y zs
    by (induction zs) simp_all
  show ?thesis
    by (induction ys) (simp_all add: inner)
qed

lemma emptyCells_eq:
  assumes "wf_grid g"
  shows "emptyCells g = ok (map (\<lambda>c. (cy c, cx c)) (empty_cells g))"
proof -
  let ?h = "\<lambda>row col. if at g \<lparr>cx = col, cy = row\<rparr> = 0 then [(row, col)] else []"
  have inner: "forEach indices (\<lambda>col acc. bind (get2 g row col)
                 (\<lambda>v. ok (if v = 0 then acc @ [(row, col)] else acc))) acc
      = ok (acc @ concat (map (?h row) indices))" if "row \<in> set indices" for row acc
    by (rule forEach_collect) (simp add: get2_indices [OF assms that])
  have "emptyCells g = ok ([] @ concat (map (\<lambda>row. concat (map (?h row) indices)) indices))"
    unfolding emptyCells_def by (rule forEach_collect) (rule inner)
  also have "concat (map (\<lambda>row. concat (map (?h row) indices)) indices)
      = map (\<lambda>c. (cy c, cx c)) (empty_cells g)"
    unfolding empty_cells_def all_cells_def
    by (simp add: map_filter_cells [where k = "\<lambda>x y. \<lparr>cx = x, cy = y\<rparr>"] cong: if_cong)
  finally show ?thesis by simp
qed

lemma spawn_cell_empty:
  assumes "empty_cells g \<noteq> []"
  shows "withinBounds (spawn_cell r g)" "at g (spawn_cell r g) = 0"
proof -
  from assms have "spawn_cell r g \<in> set (empty_cells g)"
    by (simp add: spawn_cell_def)
  then show "withinBounds (spawn_cell r g)" "at g (spawn_cell r g) = 0"
    by (simp_all add: empty_cells_def set_all_cells)
qed

lemma spawnTile_eq:
  assumes "wf_grid g"
  shows "spawnTile r g =
     ok (if empty_cells g = [] then g else upd g (spawn_cell r g) (spawn_value r))"
proof (cases "empty_cells g = []")
  case True
  then show ?thesis
    by (simp add: spawnTile_def emptyCells_eq [OF assms])
next
  case False
  then have i: "cell_draw r mod length (empty_cells g) < length (empty_cells g)"
    by simp
  from set2_wf [OF assms spawn_cell_empty(1) [OF False], of r "spawn_value r"] False i
  show ?thesis
    by (simp add: spawnTile_def emptyCells_eq [OF assms] spawn_cell_def spawn_value_def)
qed

lemma wf_empty_grid: "wf_grid empty_grid"
  by (simp add: empty_grid_def)

lemma at_empty_grid: "withinBounds c \<Longrightarrow> at empty_grid c = 0"
  using withinBounds_nat [of c] by (simp add: at_def empty_grid_def)

lemma spawn_value_cases: "spawn_value r = 2 \<or> spawn_value r = 4"
  by (simp add: spawn_value_def)

lemma empty_cells_nonempty: "withinBounds c \<Longrightarrow> at g c = 0 \<Longrightarrow> empty_cells g \<noteq> []"
  by (auto simp: empty_cells_def filter_empty_conv set_all_cells)

lemma startNewGame_eq:
  fixes r1 r2 :: random
  defines "c1 \<equiv> spawn_cell r1 empty_grid"
  defines "g1 \<equiv> upd empty_grid c1 (spawn_value r1)"
  defines "c2 \<equiv> spawn_cell r2 g1"
  shows "withinBounds c1 \<and> withinBounds c2 \<and> c1 \<noteq> c2
       \<and> spawnTile r1 empty_grid = ok g1
       \<and> spawnTile r2 g1 = ok (upd g1 c2 (spawn_value r2))
       \<and> (\<exists>s'. startNewGame r1 r2 s = ok s' \<and> grid s' = upd g1 c2 (spawn_value r2)
              \<and> score s' = 0 \<and> \<not> hasWon s' \<and> \<not> isAnimating s')"
proof -
  let ?o = "\<lparr>cx = 0, cy = 0\<rparr>" and ?p = "\<lparr>cx = 1, cy = 0\<rparr>"
  have wo: "withinBounds ?o" "withinBounds ?p" "?o \<noteq> ?p"
    by (simp_all add: withinBounds_def GRID_SIZE_def)
  have ne0: "empty_cells empty_grid \<noteq> []"
    using empty_cells_nonempty [OF wo(1) at_empty_grid [OF wo(1)]] .
  then have c1: "withinBounds c1"
    unfolding c1_def by (rule spawn_cell_empty)
  have wf1: "wf_grid g1"
    by (simp add: g1_def wf_empty_grid)
  have at1: "at g1 c = (if c = c1 then spawn_value r1 else 0)" if "withinBounds c" for c
    using that c1 by (simp add: g1_def at_upd [OF wf_empty_grid] at_empty_grid)
  have "\<exists>c. withinBounds c \<and> at g1 c = 0"
  proof (cases "c1 = ?o")
    case True
    with wo at1 [of ?p] show ?thesis by metis
  next
    case False
    with wo at1 [of ?o] show ?thesis by metis
  qed
  then have ne1: "empty_cells g1 \<noteq> []"
    using empty_cells_nonempty by blast
  then have c2: "withinBounds c2" "at g1 c2 = 0"
    unfolding c2_def by (rule spawn_cell_empty)+
  have "spawn_value r1 \<noteq> 0"
    using spawn_value_cases [of r1] by auto
  with c2 at1 [of c2] have neq: "c1 \<noteq> c2"
    by (auto split: if_splits)
  have s1: "spawnTile r1 empty_grid = ok g1"
    using ne0 by (simp add: spawnTile_eq [OF wf_empty_grid] g1_def c1_def)
  have s2: "spawnTile r2 g1 = ok (upd g1 c2 (spawn_value r2))"
    using ne1 by (simp add: spawnTile_eq [OF wf1] c2_def)
  have "\<exists>s'. startNewGame r1 r2 s = ok s' \<and> grid s' = upd g1 c2 (spawn_value r2)
              \<and> score s' = 0 \<and> \<not> hasWon s' \<and> \<not> isAnimating s'"
    using s1 s2 by (simp add: startNewGame_def Let_def updateScore_def empty_grid_def)
  with c1 c2 neq s1 s2 show ?thesis by blast
qed

lemma move_cell_effect:
  assumes g: "wf_grid (rgrid s)" and m: "wf_grid (merged s)"
    and c: "withinBounds \<lparr>cx = x, cy = y\<rparr>"
  shows "\<exists>ps. findFarthestPosition (rgrid s) \<lparr>cx = x, cy = y\<rparr> (vectors d) = ok ps
     \<and> move_cell (vectors d) y x s =
         ok (if at (rgrid s) \<lparr>cx = x, cy = y\<rparr> = 0 then s
             else if withinBounds (nxt ps)
                     \<and> at (rgrid s) (nxt ps) = at (rgrid s) \<lparr>cx = x, cy = y\<rparr>
                     \<and> \<not> at (merged s) (nxt ps)
                  then merge_into s \<lparr>cx = x, cy = y\<rparr> (nxt ps)
                  else if farthest ps \<noteq> \<lparr>cx = x, cy = y\<rparr>
                       then slide_to s \<lparr>cx = x, cy = y\<rparr> (farthest ps)
                       else s)"
proof -
  let ?c = "\<lparr>cx = x, cy = y\<rparr>"
  let ?t = "at (rgrid s) ?c"
  have rd: "get2 (rgrid s) y x = ok ?t"
    using get2_wf [OF g c] by simp
  from ffp_char [OF g, of ?c d] obtain k where
    k: "findFarthestPosition (rgrid s) ?c (vectors d) =
          ok \<lparr>farthest = advance ?c (vectors d) k, nxt = advance ?c (vectors d) (Suc k)\<rparr>"
       "\<forall>i. 1 \<le> i \<and> i \<le> k \<longrightarrow> withinBounds (advance ?c (vectors d) i)
             \<and> at (rgrid s) (advance ?c (vectors d) i) = 0"
    by blast
  let ?n = "advance ?c (vectors d) (Suc k)"
  let ?f = "advance ?c (vectors d) k"
  let ?ps = "\<lparr>farthest = ?f, nxt = ?n\<rparr>"
  define b where "b = (withinBounds ?n \<and> at (rgrid s) ?n = ?t \<and> \<not> at (merged s) ?n)"
  have cm: "can_merge s ?n ?t = ok b"
    by (simp add: can_merge_wf [OF g m] b_def)
  have "move_cell (vectors d) y x s =
         ok (if ?t = 0 then s else if b then merge_into s ?c ?n
             else if ?f \<noteq> ?c then slide_to s ?c ?f else s)"
  proof (cases "?t = 0")
    case True
    then show ?thesis by (simp add: move_cell_def rd)
  next
    case False
    show ?thesis
    proof (cases b)
      case True
      then have wn: "withinBounds ?n" by (simp add: b_def)
      show ?thesis
        using False True
        by (simp add: move_cell_def rd k(1) cm Let_def
            set2_wf [OF g wn] set2_wf [OF m wn] set2_wf [OF _ c, simplified] g merge_into_def)
    next
      case nomerge: False
      show ?thesis
      proof (cases "?f = ?c")
        case True
        then have "cx ?f = x" "cy ?f = y"
          by (auto dest: arg_cong [where f = cx] arg_cong [where f = cy])
        with True show ?thesis
          using False nomerge
          by (simp add: move_cell_def rd k(1) cm Let_def)
      next
        case far: False
        then have "1 \<le> k" by (rule advance_neq_pos)
        with k(2) have wf: "withinBounds ?f"
          by auto
        have "cx ?f \<noteq> x \<or> cy ?f \<noteq> y"
          using far cell_neq_iff [of ?f ?c] by simp
        then show ?thesis
          using False nomerge far
          by (simp add: move_cell_def rd k(1) cm Let_def
              set2_wf [OF g wf] set2_wf [OF _ c, simplified] g slide_to_def)
      qed
    qed
  qed
  then have "move_cell (vectors d) y x s =
         ok (if ?t = 0 then s
             else if withinBounds (nxt ?ps) \<and> at (rgrid s) (nxt ?ps) = ?t \<and> \<not> at (merged s) (nxt ?ps)
                  then merge_into s ?c (nxt ?ps)
                  else if farthest ?ps \<noteq> ?c then slide_to s ?c (farthest ?ps) else s)"
    by (simp add: b_def)
  with k(1) show ?thesis by blast
qed

lemma resolve_merge_values:
  assumes "board_ok g"
  shows "\<exists>r. resolve d g sc = ok r \<and> board_ok (rgrid r)
           \<and> (\<forall>e \<in> set (mergedTiles r). \<exists>v. pow2 v \<and> mvalue e = v * 2)"
proof -
  let ?I = "\<lambda>s::resolution. valid_tiles (rgrid s)
              \<and> (\<forall>e \<in> set (mergedTiles s). \<exists>v. pow2 v \<and> mvalue e = v * 2)"
  from assms have wf: "wf_grid g" and v: "valid_tiles g"
    by (simp_all add: board_ok_def)
  have "\<exists>r. resolve d g sc = ok r \<and> wf_grid (rgrid r) \<and> wf_grid (merged r) \<and> ?I r"
  proof (rule resolve_inv [OF wf, where I = ?I])
    show "?I (initial g sc)"
      using v by (simp add: initial_def)
  next
    fix s :: resolution and c n
    assume a: "wf_grid (rgrid s)" "?I s" "withinBounds c" "at (rgrid s) c \<noteq> 0"
    then have "tile_value (at (rgrid s) c)"
      by (simp add: valid_at)
    with a(4) have "pow2 (at (rgrid s) c)"
      by (simp add: tile_value_def)
    with a show "?I (merge_into s c n)"
      by (auto simp: merge_into_def valid_upd valid_at tile_value_double)
  next
    fix s :: resolution and c f
    assume "wf_grid (rgrid s)" "?I s" "withinBounds c"
    then show "?I (slide_to s c f)"
      by (simp add: slide_to_def valid_upd valid_at)
  qed
  then show ?thesis by (auto simp: board_ok_def)
qed

lemma at_empty_grid_all: "\<forall>c \<in> set all_cells. at empty_grid c = 0"
  by (simp add: set_all_cells at_empty_grid)

lemma tile_value_spawn_value [simp]: "tile_value (spawn_value r)"
  by (simp add: spawn_value_def)

lemma spawn_result_ok:
  "board_ok g \<Longrightarrow>
   board_ok (if empty_cells g = [] then g else upd g (spawn_cell r g) (spawn_value r))"
  by (simp add: board_ok_def valid_upd)

lemma board_ok_compact: "board_ok (grid compact_state)"
  by code_simp

lemma run_compact:
  "run [Move Down, Timeout first_two] compact_state =
     ok \<lparr>grid = [[2, 0, 0, 0], [2, 0, 0, 0], [4, 0, 0, 0], [2, 8, 8, 16]],
         score = 20, bestScore = 20, hasWon = False, isAnimating = False,
         shown = [], pending = 0\<rparr>"
  by code_simp

text \<open>
  C8. Every operation keeps the board well-formed with every cell empty or a power of two
  that is at least 2, and these are the only writes to the grid:
  \<^item> a new game starts from a board whose cells are all empty, and ends, from any state,
    with that board plus the two spawned tiles, on two different cells;
  \<^item> \<open>spawnTile\<close> writes 2 or 4 into one cell that was empty and changes nothing else,
    or leaves a full board as it is;
  \<^item> one pass of the loop body of \<open>move\<close> leaves the grid alone, or writes double the
    value of the tile at \<open>next\<close> (which equals the moving tile) there and clears the
    moving tile's cell, or copies the tile to the farthest cell and clears its own, and
    which of these it does is fixed by the tests of the source;
  \<^item> the resolution loop of a move keeps the invariant, and every merge event's value is
    double a power of two that is at least 2;
  \<^item> so does every sequence of moves, callbacks and new games.
\<close>

theorem tiles_are_powers_of_two:
  "(\<forall>c \<in> set all_cells. at empty_grid c = 0)
   \<and> (let c1 = spawn_cell r1 empty_grid;
           g1 = upd empty_grid c1 (spawn_value r1);
           c2 = spawn_cell r2 g1
       in withinBounds c1 \<and> withinBounds c2 \<and> c1 \<noteq> c2
          \<and> (\<exists>s'. startNewGame r1 r2 s = ok s' \<and> grid s' = upd g1 c2 (spawn_value r2)
                 \<and> board_ok (grid s')))
   \<and> (spawn_value r = 2 \<or> spawn_value r = 4)
   \<and> (wf_grid g \<longrightarrow>
        spawnTile r g = ok (if empty_cells g = [] then g
                            else upd g (spawn_cell r g) (spawn_value r)))
   \<and> (empty_cells g \<noteq> [] \<longrightarrow> withinBounds (spawn_cell r g) \<and> at g (spawn_cell r g) = 0)
   \<and> (board_ok g \<longrightarrow> (\<exists>g'. spawnTile r g = ok g' \<and> board_ok g'))
   \<and> (wf_grid (rgrid t) \<and> wf_grid (merged t) \<and> withinBounds \<lparr>cx = x, cy = y\<rparr> \<longrightarrow>
        (\<exists>ps t'. findFarthestPosition (rgrid t) \<lparr>cx = x, cy = y\<rparr> (vectors d) = ok ps
           \<and> move_cell (vectors d) y x t = ok t'
           \<and> rgrid t' =
               (if at (rgrid t) \<lparr>cx = x, cy = y\<rparr> = 0 then rgrid t
                else if withinBounds (nxt ps)
                        \<and> at (rgrid t) (nxt ps) = at (rgrid t) \<lparr>cx = x, cy = y\<rparr>
                        \<and> \<not> at (merged t) (nxt ps)
                     then upd (upd (rgrid t) (nxt ps) (at (rgrid t) (nxt ps) * 2))
                            \<lparr>cx = x, cy = y\<rparr> 0
                     else if farthest ps \<noteq> \<lparr>cx = x, cy = y\<rparr>
                          then upd (upd (rgrid t) (farthest ps) (at (rgrid t) \<lparr>cx = x, cy = y\<rparr>))
                                 \<lparr>cx = x, cy = y\<rparr> 0
                          else rgrid t)))
   \<and> (board_ok g \<longrightarrow>
        (\<exists>res. resolve d g sc = ok res \<and> board_ok (rgrid res)
           \<and> (\<forall>e \<in> set (mergedTiles res). \<exists>v. pow2 v \<and> mvalue e = v * 2)))
   \<and> (board_ok (grid s) \<longrightarrow> (\<exists>s'. run es s = ok s' \<and> board_ok (grid s')))"
proof -
  have new: "let c1 = spawn_cell r1 empty_grid;
           g1 = upd empty_grid c1 (spawn_value r1);
           c2 = spawn_cell r2 g1
       in withinBounds c1 \<and> withinBounds c2 \<and> c1 \<noteq> c2
          \<and> (\<exists>s'. startNewGame r1 r2 s = ok s' \<and> grid s' = upd g1 c2 (spawn_value r2)
                 \<and> board_ok (grid s'))"
    unfolding Let_def
    using startNewGame_eq [of r1 r2 s] startNewGame_effect [of r1 r2 s] by auto
  have step: "\<exists>ps t'. findFarthestPosition (rgrid t) \<lparr>cx = x, cy = y\<rparr> (vectors d) = ok ps
           \<and> move_cell (vectors d) y x t = ok t'
           \<and> rgrid t' =
               (if at (rgrid t) \<lparr>cx = x, cy = y\<rparr> = 0 then rgrid t
                else if withinBounds (nxt ps)
                        \<and> at (rgrid t) (nxt ps) = at (rgrid t) \<lparr>cx = x, cy = y\<rparr>
                        \<and> \<not> at (merged t) (nxt ps)
                     then upd (upd (rgrid t) (nxt ps) (at (rgrid t) (nxt ps) * 2))
                            \<lparr>cx = x, cy = y\<rparr> 0
                     else if farthest ps \<noteq> \<lparr>cx = x, cy = y\<rparr>
                          then upd (upd (rgrid t) (farthest ps) (at (rgrid t) \<lparr>cx = x, cy = y\<rparr>))
                                 \<lparr>cx = x, cy = y\<rparr> 0
                          else rgrid t)"
    if "wf_grid (rgrid t)" "wf_grid (merged t)" "withinBounds \<lparr>cx = x, cy = y\<rparr>"
  proof -
    from move_cell_effect [OF that, of d] obtain ps where
      ps: "findFarthestPosition (rgrid t) \<lparr>cx = x, cy = y\<rparr> (vectors d) = ok ps"
      and mv: "move_cell (vectors d) y x t =
         ok (if at (rgrid t) \<lparr>cx = x, cy = y\<rparr> = 0 then t
             else if withinBounds (nxt ps)
                     \<and> at (rgrid t) (nxt ps) = at (rgrid t) \<lparr>cx = x, cy = y\<rparr>
                     \<and> \<not> at (merged t) (nxt ps)
                  then merge_into t \<lparr>cx = x, cy = y\<rparr> (nxt ps)
                  else if farthest ps \<noteq> \<lparr>cx = x, cy = y\<rparr>
                       then slide_to t \<lparr>cx = x, cy = y\<rparr> (farthest ps)
                       else t)"
      by blast
    show ?thesis
      apply (rule exI [of _ ps])
      apply (subst mv)
      using ps by (simp add: merge_into_def slide_to_def)
  qed
  show ?thesis
    using at_empty_grid_all new spawn_value_cases [of r] spawnTile_eq [of g r]
      spawn_cell_empty [of g r] spawnTile_board_ok [of g r] step
      resolve_merge_values [of g d sc] run_board_ok [of s es]
    by blast
qed

lemma wf_compact_grid: "wf_grid compact_grid"
  by (simp add: wf_grid_def compact_grid_def GRID_SIZE_def)

lemma spawn_compact:
  "empty_cells compact_grid \<noteq> []"
  "upd compact_grid (spawn_cell first_two compact_grid) (spawn_value first_two)
     = [[2, 4, 2, 0], [4, 0, 0, 0], [2, 4, 8, 16], [0, 0, 0, 0]]"
  by code_simp+

lemma new_game_grid:
  "upd (upd empty_grid (spawn_cell first_two empty_grid) (spawn_value first_two))
     (spawn_cell eighth_four
        (upd empty_grid (spawn_cell first_two empty_grid) (spawn_value first_two)))
     (spawn_value eighth_four)
   = [[2, 0, 0, 0], [0, 0, 0, 0], [4, 0, 0, 0], [0, 0, 0, 0]]"
  by code_simp

lemma merge_step_pair:
  "wf_grid (rgrid (initial pair_grid 0))" "wf_grid (merged (initial pair_grid 0))"
  "withinBounds \<lparr>cx = 1, cy = 0\<rparr>"
  "findFarthestPosition (rgrid (initial pair_grid 0)) \<lparr>cx = 1, cy = 0\<rparr> (vectors Left)
     = ok \<lparr>farthest = \<lparr>cx = 1, cy = 0\<rparr>, nxt = \<lparr>cx = 0, cy = 0\<rparr>\<rparr>"
  "move_cell (vectors Left) 0 1 (initial pair_grid 0)
     = ok \<lparr>rgrid = [[4, 0, 0, 0], [0, 0, 0, 0], [0, 0, 0, 0], [0, 0, 0, 0]], rscore = 4,
           moved = True, mergedTiles = [\<lparr>mrow = 0, mcol = 0, mvalue = 4\<rparr>],
           merged = [[True, False, False, False], [False, False, False, False],
                     [False, False, False, False], [False, False, False, False]]\<rparr>"
  by code_simp+

theorem tiles_are_powers_of_two_witness:
  "wf_grid compact_grid \<and> board_ok compact_grid \<and> empty_cells compact_grid \<noteq> []
   \<and> spawnTile first_two compact_grid = ok [[2, 4, 2, 0], [4, 0, 0, 0], [2, 4, 8, 16], [0, 0, 0, 0]]
   \<and> (\<exists>s'. startNewGame first_two eighth_four winning_state = ok s'
          \<and> grid s' = [[2, 0, 0, 0], [0, 0, 0, 0], [4, 0, 0, 0], [0, 0, 0, 0]])
   \<and> wf_grid (rgrid (initial pair_grid 0)) \<and> wf_grid (merged (initial pair_grid 0))
   \<and> withinBounds \<lparr>cx = 1, cy = 0\<rparr>
   \<and> (\<exists>t'. move_cell (vectors Left) 0 1 (initial pair_grid 0) = ok t'
          \<and> rgrid t' = [[4, 0, 0, 0], [0, 0, 0, 0], [0, 0, 0, 0], [0, 0, 0, 0]])
   \<and> board_ok (grid compact_state)
   \<and> board_ok [[2, 0, 0, 0], [2, 0, 0, 0], [4, 0, 0, 0], [2, 8, 8, 16]]"
proof -
  note T = tiles_are_powers_of_two [where ?r1.0 = first_two and ?r2.0 = eighth_four
      and s = winning_state and r = first_two and g = compact_grid
      and t = "initial pair_grid 0" and x = 1 and y = 0 and d = Left and sc = 0 and es = "[]"]
  note U = tiles_are_powers_of_two [where ?r1.0 = first_two and ?r2.0 = eighth_four
      and s = compact_state and r = first_two and g = compact_grid
      and t = "initial pair_grid 0" and x = 1 and y = 0 and d = Left and sc = 0
      and es = "[Move Down, Timeout first_two]"]
  have ok_grid: "board_ok compact_grid"
    using board_ok_compact by (simp add: compact_state_def)
  from T have "wf_grid compact_grid \<longrightarrow>
      spawnTile first_two compact_grid =
        ok (if empty_cells compact_grid = [] then compact_grid
            else upd compact_grid (spawn_cell first_two compact_grid) (spawn_value first_two))"
    by (elim conjE)
  then have spawn: "spawnTile first_two compact_grid
      = ok [[2, 4, 2, 0], [4, 0, 0, 0], [2, 4, 8, 16], [0, 0, 0, 0]]"
    using wf_compact_grid by (simp add: spawn_compact)
  from T have "\<exists>s'. startNewGame first_two eighth_four winning_state = ok s'
      \<and> grid s' = upd (upd empty_grid (spawn_cell first_two empty_grid) (spawn_value first_two))
          (spawn_cell eighth_four
             (upd empty_grid (spawn_cell first_two empty_grid) (spawn_value first_two)))
          (spawn_value eighth_four)"
    unfolding Let_def by (elim conjE) blast
  then have new: "\<exists>s'. startNewGame first_two eighth_four winning_state = ok s'
      \<and> grid s' = [[2, 0, 0, 0], [0, 0, 0, 0], [4, 0, 0, 0], [0, 0, 0, 0]]"
    unfolding new_game_grid .
  from T merge_step_pair(1,2,3)
  have "\<exists>t'. move_cell (vectors Left) 0 1 (initial pair_grid 0) = ok t'"
    by (elim conjE) blast
  then have step: "\<exists>t'. move_cell (vectors Left) 0 1 (initial pair_grid 0) = ok t'
      \<and> rgrid t' = [[4, 0, 0, 0], [0, 0, 0, 0], [0, 0, 0, 0], [0, 0, 0, 0]]"
    unfolding merge_step_pair(5) by simp
  from U board_ok_compact
  have "\<exists>s'. run [Move Down, Timeout first_two] compact_state = ok s' \<and> board_ok (grid s')"
    by (elim conjE) blast
  then have ran: "board_ok [[2, 0, 0, 0], [2, 0, 0, 0], [4, 0, 0, 0], [2, 8, 8, 16]]"
    by (simp add: run_compact)
  from wf_compact_grid ok_grid spawn_compact(1) spawn new merge_step_pair(1,2,3) step
    board_ok_compact ran
  show ?thesis by blast
qed

section \<open>Winning is sticky\<close>

text \<open>
  C6. Through any sequence of moves and callbacks without a new game, started in a state
  with a well-formed grid: the session runs without fault; if \<open>hasWon\<close> was set at the
  start it is set at the end; and the number of win messages shown grows by exactly one if
  \<open>hasWon\<close> went from unset to set, and not at all otherwise. So a game shows the win
  message at most once. \<open>startNewGame\<close> clears \<open>hasWon\<close>.
\<close>

theorem win_is_sticky:
  "(wf_grid (grid s) \<and> no_new_game es \<longrightarrow>
      (\<exists>s'. run es s = ok s' \<and> (hasWon s \<longrightarrow> hasWon s')
           \<and> won_signals s' = won_signals s + (if hasWon s' \<and> \<not> hasWon s then 1 else 0)))
   \<and> (\<exists>s'. startNewGame r1 r2 s = ok s' \<and> \<not> hasWon s')"
  using run_won [of s es] startNewGame_effect [of r1 r2 s] by blast

lemma wf_winning_state: "wf_grid (grid winning_state)"
  by (simp add: wf_grid_def winning_state_def GRID_SIZE_def)

lemma run_winning:
  "run [Move Left, Timeout first_two, Move Right, Timeout first_two] winning_state =
     ok \<lparr>grid = [[2, 0, 2048, 2], [0, 0, 0, 0], [0, 0, 0, 0], [0, 0, 0, 0]],
         score = 22048, bestScore = 30000, hasWon = True,
         isAnimating = False, shown = [(''You Win!'', True)], pending = 0\<rparr>"
  by code_simp

lemma no_new_game_winning:
  "no_new_game [Move Left, Timeout first_two, Move Right, Timeout first_two]"
  by (simp add: no_new_game_def)

theorem win_is_sticky_witness:
  "wf_grid (grid winning_state)
   \<and> no_new_game [Move Left, Timeout first_two, Move Right, Timeout first_two]
   \<and> won_signals \<lparr>grid = [[2, 0, 2048, 2], [0, 0, 0, 0], [0, 0, 0, 0], [0, 0, 0, 0]],
         score = 22048, bestScore = 30000, hasWon = True,
         isAnimating = False, shown = [(''You Win!'', True)], pending = 0\<rparr>
       = won_signals winning_state + 1"
proof -
  have nw: "\<not> hasWon winning_state"
    by (simp add: winning_state_def)
  from win_is_sticky [of winning_state "[Move Left, Timeout first_two, Move Right, Timeout first_two]"]
    wf_winning_state no_new_game_winning
  obtain s' where
    "run [Move Left, Timeout first_two, Move Right, Timeout first_two] winning_state = ok s'"
    "won_signals s' = won_signals winning_state + (if hasWon s' \<and> \<not> hasWon winning_state then 1 else 0)"
    by blast
  then show ?thesis
    using nw wf_winning_state no_new_game_winning unfolding run_winning by auto
qed

end
